theory Spec2Isabelle
  imports Main "HOL-Library.Monad_Syntax" "HOL-Library.Product_Lexorder" "HOL-Library.Sublist"
    "HOL-Library.Multiset"
begin

section \<open>Texts and regular expressions\<close>

text \<open>
  The document text is a JavaScript string: a sequence of UTF-16 code units.  A code unit is
  modelled by its number, so that the line terminators and white space beyond Latin-1 that
  the patterns \<open>.\<close>, \<open>$\<close> and \<open>\s\<close> distinguish are there.
\<close>

type_synonym codeunit = nat
type_synonym jstring = "codeunit list"

definition cu :: "char \<Rightarrow> codeunit" where
  "cu c = of_char c"

definition str :: "string \<Rightarrow> jstring" where
  "str w = map cu w"

text \<open>
  The regular expressions of the source use character classes, literals, sequence,
  alternation, greedy and lazy repetition, and zero-width assertions (\<open>\b\<close>, \<open>^\<close>, \<open>$\<close>, a
  one-character negative lookbehind and lookahead).  An assertion is kept as a predicate on
  the text and the position.
\<close>

datatype regex =
    Cls "codeunit \<Rightarrow> bool"
  | Lit jstring
  | Assert "jstring \<Rightarrow> nat \<Rightarrow> bool"
  | Seq regex regex
  | Alt regex regex
  | Star regex
  | StarLazy regex

text \<open>
  \<open>ms r s i\<close> lists the end positions of the matches of \<open>r\<close> in \<open>s\<close> that start at \<open>i\<close>, in the
  order in which the backtracking matcher of ECMAScript tries them: the left alternative
  before the right one, one more iteration before stopping for a greedy repetition and the
  other way round for a lazy one.  An iteration that consumes nothing is refused, as the
  RepeatMatcher of the language definition does.  The match that \<open>exec\<close> reports at \<open>i\<close> is
  the head of the list.  The list has no bound: an engine that keeps the pending
  alternatives on a stack of fixed size raises an error where this matcher goes on.
\<close>

function ms :: "regex \<Rightarrow> jstring \<Rightarrow> nat \<Rightarrow> nat list" where
  "ms (Cls p) s i = (if i < length s \<and> p (s ! i) then [i + 1] else [])"
| "ms (Lit w) s i = (if take (length w) (drop i s) = w then [i + length w] else [])"
| "ms (Assert a) s i = (if a s i then [i] else [])"
| "ms (Seq r1 r2) s i = concat (map (\<lambda>j. ms r2 s j) (ms r1 s i))"
| "ms (Alt r1 r2) s i = ms r1 s i @ ms r2 s i"
| "ms (Star r) s i =
     concat (map (\<lambda>j. ms (Star r) s j) (filter (\<lambda>j. i < j \<and> j \<le> length s) (ms r s i))) @ [i]"
| "ms (StarLazy r) s i =
     i # concat (map (\<lambda>j. ms (StarLazy r) s j) (filter (\<lambda>j. i < j \<and> j \<le> length s) (ms r s i)))"
  by pat_completeness auto
termination
  by (relation "measures [\<lambda>(r, s, i). size r, \<lambda>(r, s, i). length s - i]") auto

declare ms.simps [simp del]

text \<open>The derived quantifiers: \<open>r+\<close>, \<open>r?\<close> and the greedy \<open>r{0,n}\<close>.\<close>

definition Plus :: "regex \<Rightarrow> regex" where
  "Plus r = Seq r (Star r)"

definition Opt :: "regex \<Rightarrow> regex" where
  "Opt r = Alt r (Lit [])"

fun UpTo :: "nat \<Rightarrow> regex \<Rightarrow> regex" where
  "UpTo 0 r = Lit []"
| "UpTo (Suc n) r = Alt (Seq r (UpTo n r)) (Lit [])"

definition Alts :: "jstring list \<Rightarrow> regex" where
  "Alts ws = foldr (\<lambda>w r. Alt (Lit w) r) (butlast ws) (Lit (last ws))"

subsection \<open>Character classes and assertions\<close>

definition is_digit :: "codeunit \<Rightarrow> bool" where
  \<comment> \<open>\<open>\d\<close>: 0-9\<close>
  "is_digit c = (48 \<le> c \<and> c \<le> 57)"

definition is_word :: "codeunit \<Rightarrow> bool" where
  \<comment> \<open>\<open>\w\<close>: A-Z, a-z, 0-9 and the underscore\<close>
  "is_word c = ((65 \<le> c \<and> c \<le> 90) \<or> (97 \<le> c \<and> c \<le> 122) \<or> is_digit c \<or> c = 95)"

definition is_line_terminator :: "codeunit \<Rightarrow> bool" where
  \<comment> \<open>LF, CR, U+2028, U+2029\<close>
  "is_line_terminator c = (c = 10 \<or> c = 13 \<or> c = 8232 \<or> c = 8233)"

definition is_space :: "codeunit \<Rightarrow> bool" where
  \<comment> \<open>\<open>\s\<close>: TAB, LF, VT, FF, CR, space, U+00A0, U+1680, U+2000 to U+200A, U+2028, U+2029,
      U+202F, U+205F, U+3000, U+FEFF\<close>
  "is_space c = ((9 \<le> c \<and> c \<le> 13) \<or> c = 32 \<or> c = 160 \<or> c = 5760 \<or> (8192 \<le> c \<and> c \<le> 8202)
     \<or> c = 8232 \<or> c = 8233 \<or> c = 8239 \<or> c = 8287 \<or> c = 12288 \<or> c = 65279)"

definition is_any :: "codeunit \<Rightarrow> bool" where
  \<comment> \<open>\<open>[\s\S]\<close>\<close>
  "is_any c = (is_space c \<or> \<not> is_space c)"

definition is_dot :: "codeunit \<Rightarrow> bool" where
  \<comment> \<open>\<open>.\<close> without the s flag\<close>
  "is_dot c = (\<not> is_line_terminator c)"

definition is_string_char :: "codeunit \<Rightarrow> bool" where
  \<comment> \<open>\<open>[^\\"]\<close>\<close>
  "is_string_char c = (c \<noteq> 92 \<and> c \<noteq> 34)"

definition is_name_start :: "codeunit \<Rightarrow> bool" where
  \<comment> \<open>\<open>[a-zA-Z_]\<close>\<close>
  "is_name_start c = ((97 \<le> c \<and> c \<le> 122) \<or> (65 \<le> c \<and> c \<le> 90) \<or> c = 95)"

definition is_hex :: "codeunit \<Rightarrow> bool" where
  \<comment> \<open>\<open>[a-fA-F\d]\<close>\<close>
  "is_hex c = ((97 \<le> c \<and> c \<le> 102) \<or> (65 \<le> c \<and> c \<le> 70) \<or> is_digit c)"

definition is_hex_or_wildcard :: "codeunit \<Rightarrow> bool" where
  \<comment> \<open>\<open>[a-fA-F\d?]\<close>\<close>
  "is_hex_or_wildcard c = ((97 \<le> c \<and> c \<le> 102) \<or> (65 \<le> c \<and> c \<le> 70) \<or> is_digit c \<or> c = 63)"

definition is_dot_or_word :: "codeunit \<Rightarrow> bool" where
  \<comment> \<open>\<open>[.\w]\<close>\<close>
  "is_dot_or_word c = (c = 46 \<or> is_word c)"

definition is_operator :: "codeunit \<Rightarrow> bool" where
  \<comment> \<open>\<open>[-+\/*=<>:]\<close>\<close>
  "is_operator c = (c = 45 \<or> c = 43 \<or> c = 47 \<or> c = 42 \<or> c = 61 \<or> c = 60 \<or> c = 62 \<or> c = 58)"

definition word_at :: "jstring \<Rightarrow> nat \<Rightarrow> bool" where
  "word_at s i = (i < length s \<and> is_word (s ! i))"

definition word_boundary :: "jstring \<Rightarrow> nat \<Rightarrow> bool" where
  \<comment> \<open>\<open>\b\<close>\<close>
  "word_boundary s i = ((0 < i \<and> word_at s (i - 1)) \<noteq> word_at s i)"

definition line_start :: "jstring \<Rightarrow> nat \<Rightarrow> bool" where
  \<comment> \<open>\<open>^\<close> with the m flag\<close>
  "line_start s i = (i = 0 \<or> (i \<le> length s \<and> is_line_terminator (s ! (i - 1))))"

definition line_end :: "jstring \<Rightarrow> nat \<Rightarrow> bool" where
  \<comment> \<open>\<open>$\<close> with the m flag\<close>
  "line_end s i = (i = length s \<or> (i < length s \<and> is_line_terminator (s ! i)))"

definition input_end :: "jstring \<Rightarrow> nat \<Rightarrow> bool" where
  \<comment> \<open>\<open>$\<close> without the m flag\<close>
  "input_end s i = (i = length s)"

definition not_after :: "(codeunit \<Rightarrow> bool) \<Rightarrow> jstring \<Rightarrow> nat \<Rightarrow> bool" where
  \<comment> \<open>\<open>(?<![...])\<close>\<close>
  "not_after p s i = (\<not> (0 < i \<and> i \<le> length s \<and> p (s ! (i - 1))))"

definition not_before :: "(codeunit \<Rightarrow> bool) \<Rightarrow> jstring \<Rightarrow> nat \<Rightarrow> bool" where
  \<comment> \<open>\<open>(?![...])\<close>\<close>
  "not_before p s i = (\<not> (i < length s \<and> p (s ! i)))"

subsection \<open>The pattern catalogue of highlightYara\<close>

definition multiCommentRegex :: regex where
  \<comment> \<open>\<open>/\/\*[\s\S]*?\*\//g\<close>\<close>
  "multiCommentRegex = Seq (Lit (str ''/*'')) (Seq (StarLazy (Cls is_any)) (Lit (str ''*/'')))"

definition singleCommentRegex :: regex where
  \<comment> \<open>\<open>/\/\/.*$/gm\<close>\<close>
  "singleCommentRegex = Seq (Lit (str ''//'')) (Seq (Star (Cls is_dot)) (Assert line_end))"

definition stringRegex :: regex where
  \<comment> \<open>\<open>/"(?:[^\\"]|\\.)*?(?:"|$)/g\<close>\<close>
  "stringRegex =
     Seq (Lit [34])
       (Seq (StarLazy (Alt (Cls is_string_char) (Seq (Lit [92]) (Cls is_dot))))
          (Alt (Lit [34]) (Assert input_end)))"

text \<open>
  \<open>/\b(rule)(\s+)([a-zA-Z_]\w{0,127})\s*\{/g\<close>: the source reads the lengths of the three
  groups, so the pattern is kept in four pieces, the three groups and the rest.
\<close>

definition ruleGroup1 :: regex where
  "ruleGroup1 = Seq (Assert word_boundary) (Lit (str ''rule''))"

definition ruleGroup2 :: regex where
  "ruleGroup2 = Plus (Cls is_space)"

definition ruleGroup3 :: regex where
  "ruleGroup3 = Seq (Cls is_name_start) (UpTo 127 (Cls is_word))"

definition ruleRest :: regex where
  "ruleRest = Seq (Star (Cls is_space)) (Lit [123])"

definition ruleDeclarationRegex :: regex where
  "ruleDeclarationRegex = Seq ruleGroup1 (Seq ruleGroup2 (Seq ruleGroup3 ruleRest))"

definition variableRegex :: regex where
  \<comment> \<open>\<open>/\$\w*/g\<close>\<close>
  "variableRegex = Seq (Lit [36]) (Star (Cls is_word))"

definition metaRegex :: regex where
  \<comment> \<open>\<open>/^#.*$/gm\<close>\<close>
  "metaRegex = Seq (Assert line_start) (Seq (Lit [35]) (Seq (Star (Cls is_dot)) (Assert line_end)))"

definition hexNumberRegex :: regex where
  \<comment> \<open>\<open>/\b0x[a-fA-F\d]+\b/g\<close>\<close>
  "hexNumberRegex =
     Seq (Assert word_boundary) (Seq (Lit (str ''0x'')) (Seq (Plus (Cls is_hex)) (Assert word_boundary)))"

definition decimalRegex :: regex where
  \<comment> \<open>\<open>/\b(?:\.\d+|\d+\.?\d*)\b/g\<close>\<close>
  "decimalRegex =
     Seq (Assert word_boundary)
       (Seq (Alt (Seq (Lit [46]) (Plus (Cls is_digit)))
                 (Seq (Plus (Cls is_digit)) (Seq (Opt (Lit [46])) (Star (Cls is_digit)))))
          (Assert word_boundary))"

definition hexPatternRegex :: regex where
  \<comment> \<open>\<open>/(?<![.\w])([a-fA-F\d?]{2})+(?![.\w])/g\<close>\<close>
  "hexPatternRegex =
     Seq (Assert (not_after is_dot_or_word))
       (Seq (Plus (Seq (Cls is_hex_or_wildcard) (Cls is_hex_or_wildcard)))
          (Assert (not_before is_dot_or_word)))"

definition atomRegex :: regex where
  \<comment> \<open>\<open>/\b(true|false)\b/g\<close>\<close>
  "atomRegex =
     Seq (Assert word_boundary) (Seq (Alts [str ''true'', str ''false'']) (Assert word_boundary))"

definition operatorRegex :: regex where
  \<comment> \<open>\<open>/[-+\/*=<>:]+/g\<close>\<close>
  "operatorRegex = Plus (Cls is_operator)"

definition keywordList :: "jstring list" where
  "keywordList = map str
     [''all'', ''and'', ''any'', ''ascii'', ''at'', ''base64'', ''base64wide'', ''condition'',
      ''contains'', ''endswith'', ''entrypoint'', ''filesize'', ''for'', ''fullword'', ''global'',
      ''icontains'', ''iendswith'', ''import'', ''in'', ''include'', ''int8'', ''int16'', ''int32'',
      ''int8be'', ''int16be'', ''int32be'', ''istartswith'', ''matches'', ''meta'', ''nocase'',
      ''not'', ''of'', ''or'', ''private'', ''rule'', ''startswith'', ''strings'', ''them'',
      ''uint8'', ''uint16'', ''uint32'', ''uint8be'', ''uint16be'', ''uint32be'', ''wide'', ''xor'']"

definition keywordRegex :: regex where
  \<comment> \<open>\<open>/\b(all|and|...|xor)\b/g\<close>\<close>
  "keywordRegex = Seq (Assert word_boundary) (Seq (Alts keywordList) (Assert word_boundary))"

section \<open>Candidates and spans\<close>

datatype decoration =
    keywordDecoration
  | stringDecoration
  | commentDecoration
  | numberDecoration
  | metaDecoration
  | variableDecoration
  | ruleNameDecoration
  | operatorDecoration
  | atomDecoration

text \<open>
  An entry of \<open>filteredMatches\<close> has a start, an end and a decoration; an entry of \<open>matches\<close>
  has a priority as well.
\<close>

record span =
  start :: nat
  end' :: nat
  decoration :: decoration

record match = span +
  priority :: nat

section \<open>Running a global regular expression over the text\<close>

text \<open>
  \<open>exec\<close> on a regular expression with the g flag looks for a match at \<open>lastIndex\<close>, then at
  each later position up to the length of the text, and answers \<open>null\<close> when there is none.
  The matcher \<open>m\<close> gives, for a start position, what can be matched there, the first choice
  at the head.
\<close>

function regexp_exec :: "(nat \<Rightarrow> 'r list) \<Rightarrow> nat \<Rightarrow> nat \<Rightarrow> (nat \<times> 'r) option" where
  "regexp_exec m n lastIndex =
     (if n < lastIndex then None
      else case m lastIndex of
             [] \<Rightarrow> regexp_exec m n (Suc lastIndex)
           | x # _ \<Rightarrow> Some (lastIndex, x))"
  by pat_completeness auto
termination
  by (relation "measure (\<lambda>(m, n, lastIndex). Suc n - lastIndex)") auto

declare regexp_exec.simps [simp del]

text \<open>
  The loop \<open>while ((match = regex.exec(text)) !== null) { matches.push(...) }\<close>.  A successful
  \<open>exec\<close> leaves \<open>lastIndex\<close> at the end of the match and the next call starts there, so the
  loop does not end by itself when a match is empty: it is a partial function.
\<close>

partial_function (option) exec_loop ::
  "(nat \<Rightarrow> 'r list) \<Rightarrow> ('r \<Rightarrow> nat) \<Rightarrow> (nat \<Rightarrow> 'r \<Rightarrow> match list) \<Rightarrow> nat \<Rightarrow> nat \<Rightarrow> match list
     \<Rightarrow> match list option" where
  "exec_loop m endIndex push n lastIndex matches =
     (case regexp_exec m n lastIndex of
        None \<Rightarrow> Some matches
      | Some (index, x) \<Rightarrow> exec_loop m endIndex push n (endIndex x) (matches @ push index x))"

declare exec_loop.simps [code]

text \<open>The body of the loops that push one candidate: the whole match.\<close>

definition push_whole :: "decoration \<Rightarrow> nat \<Rightarrow> nat \<Rightarrow> nat \<Rightarrow> match list" where
  "push_whole d p index e =
     [\<lparr>start = index, end' = index + (e - index), decoration = d, priority = p\<rparr>]"

definition scan :: "regex \<Rightarrow> decoration \<Rightarrow> nat \<Rightarrow> jstring \<Rightarrow> match list \<Rightarrow> match list option" where
  "scan r d p s matches = exec_loop (ms r s) (\<lambda>e. e) (push_whole d p) (length s) 0 matches"

text \<open>
  The rule declaration: the ends of group 1, group 2, group 3 and of the whole match, in
  the order of the backtracking matcher.
\<close>

definition rule_ms :: "jstring \<Rightarrow> nat \<Rightarrow> (nat \<times> nat \<times> nat \<times> nat) list" where
  "rule_ms s i =
     concat (map (\<lambda>e1.
       concat (map (\<lambda>e2.
         concat (map (\<lambda>e3.
           map (\<lambda>e. (e1, e2, e3, e)) (ms ruleRest s e3))
         (ms ruleGroup3 s e2)))
       (ms ruleGroup2 s e1)))
     (ms ruleGroup1 s i))"

definition push_rule :: "nat \<Rightarrow> nat \<times> nat \<times> nat \<times> nat \<Rightarrow> match list" where
  "push_rule index x =
     (case x of (e1, e2, e3, e) \<Rightarrow>
        let len1 = e1 - index; len2 = e2 - e1; len3 = e3 - e2;
            ruleNameStart = index + len1 + len2
        in [\<lparr>start = index, end' = index + len1, decoration = keywordDecoration, priority = 3\<rparr>,
            \<lparr>start = ruleNameStart, end' = ruleNameStart + len3,
             decoration = ruleNameDecoration, priority = 3\<rparr>])"

definition scan_rule :: "jstring \<Rightarrow> match list \<Rightarrow> match list option" where
  "scan_rule s matches =
     exec_loop (rule_ms s) (\<lambda>(e1, e2, e3, e). e) push_rule (length s) 0 matches"

text \<open>The candidates, in the order in which the source pushes them.\<close>

definition collect :: "jstring \<Rightarrow> match list option" where
  "collect s = do {
     m1 \<leftarrow> scan multiCommentRegex commentDecoration 1 s [];
     m2 \<leftarrow> scan singleCommentRegex commentDecoration 1 s m1;
     m3 \<leftarrow> scan stringRegex stringDecoration 2 s m2;
     m4 \<leftarrow> scan_rule s m3;
     m5 \<leftarrow> scan variableRegex variableDecoration 3 s m4;
     m6 \<leftarrow> scan metaRegex metaDecoration 4 s m5;
     m7 \<leftarrow> scan hexNumberRegex numberDecoration 5 s m6;
     m8 \<leftarrow> scan decimalRegex numberDecoration 5 s m7;
     m9 \<leftarrow> scan hexPatternRegex numberDecoration 5 s m8;
     m10 \<leftarrow> scan atomRegex atomDecoration 6 s m9;
     m11 \<leftarrow> scan operatorRegex operatorDecoration 7 s m10;
     scan keywordRegex keywordDecoration 8 s m11
   }"

section \<open>Sorting and overlap resolution\<close>

definition compare :: "match \<Rightarrow> match \<Rightarrow> int" where
  "compare a b =
     (if start a \<noteq> start b then int (start a) - int (start b)
      else int (priority a) - int (priority b))"

text \<open>
  \<open>Array.prototype.sort\<close> is stable: elements that compare equal keep their order.  It is
  modelled by insertion from the right, an element going before the first one that is not
  smaller.
\<close>

fun insert_sorted :: "('a \<Rightarrow> 'a \<Rightarrow> int) \<Rightarrow> 'a \<Rightarrow> 'a list \<Rightarrow> 'a list" where
  "insert_sorted cmp x [] = [x]"
| "insert_sorted cmp x (y # ys) =
     (if cmp x y \<le> 0 then x # y # ys else y # insert_sorted cmp x ys)"

definition array_sort :: "('a \<Rightarrow> 'a \<Rightarrow> int) \<Rightarrow> 'a list \<Rightarrow> 'a list" where
  "array_sort cmp xs = foldr (insert_sorted cmp) xs []"

definition overlaps :: "'a span_scheme \<Rightarrow> 'b span_scheme \<Rightarrow> bool" where
  "overlaps current added = (start current < end' added \<and> end' current > start added)"

definition to_span :: "match \<Rightarrow> span" where
  "to_span current =
     \<lparr>start = start current, end' = end' current, decoration = decoration current\<rparr>"

fun filter_loop :: "match list \<Rightarrow> span list \<Rightarrow> span list" where
  "filter_loop [] filteredMatches = filteredMatches"
| "filter_loop (current # rest) filteredMatches =
     (let shouldAdd = \<not> list_ex (\<lambda>added. overlaps current added) filteredMatches
      in if shouldAdd then filter_loop rest (filteredMatches @ [to_span current])
         else filter_loop rest filteredMatches)"

text \<open>
  The scan: the spans that \<open>highlightYara\<close> adds to the builder, in the order in which it
  adds them.
\<close>

definition highlightYara :: "jstring \<Rightarrow> span list option" where
  "highlightYara s = do {
     matches \<leftarrow> collect s;
     Some (filter_loop (array_sort compare matches) [])
   }"

text \<open>The scenario text \<open>// hello\nrule foo { condition: true }\<close>.\<close>

definition scenario_text :: jstring where
  "scenario_text = str ''// hello'' @ [10] @ str ''rule foo { condition: true }''"

text \<open>The text \<open>/* abc\<close>: a block comment that is never closed.\<close>

definition unterminated_text :: jstring where
  "unterminated_text = str ''/* abc''"

text \<open>The candidates that the patterns find in the scenario text.\<close>

definition scenario_pool :: "match list" where
  "scenario_pool =
     [\<lparr>start = 0, end' = 8, decoration = commentDecoration, priority = 1\<rparr>,
      \<lparr>start = 9, end' = 13, decoration = keywordDecoration, priority = 3\<rparr>,
      \<lparr>start = 14, end' = 17, decoration = ruleNameDecoration, priority = 3\<rparr>,
      \<lparr>start = 31, end' = 35, decoration = atomDecoration, priority = 6\<rparr>,
      \<lparr>start = 0, end' = 2, decoration = operatorDecoration, priority = 7\<rparr>,
      \<lparr>start = 29, end' = 30, decoration = operatorDecoration, priority = 7\<rparr>,
      \<lparr>start = 9, end' = 13, decoration = keywordDecoration, priority = 8\<rparr>,
      \<lparr>start = 20, end' = 29, decoration = keywordDecoration, priority = 8\<rparr>]"

text \<open>
  The text \<open>// foo /* bar \n */\<close>: a line comment that holds the start of a block comment,
  with the candidates that the patterns find in it, in the order of the pool.
\<close>

definition nested_comment_text :: jstring where
  "nested_comment_text = str ''// foo /* bar '' @ [10] @ str '' */''"

definition nested_comment_pool :: "match list" where
  "nested_comment_pool =
     [\<lparr>start = 7, end' = 18, decoration = commentDecoration, priority = 1\<rparr>,
      \<lparr>start = 0, end' = 14, decoration = commentDecoration, priority = 1\<rparr>,
      \<lparr>start = 0, end' = 2, decoration = operatorDecoration, priority = 7\<rparr>,
      \<lparr>start = 7, end' = 9, decoration = operatorDecoration, priority = 7\<rparr>,
      \<lparr>start = 16, end' = 18, decoration = operatorDecoration, priority = 7\<rparr>]"

text \<open>The text \<open>"abc\<close>: a string that is never closed.\<close>

definition open_string_text :: jstring where
  "open_string_text = 34 # str ''abc''"

section \<open>Vocabulary of the proofs\<close>

text \<open>The least number of code units that a match of a regular expression consumes.\<close>

fun minlen :: "regex \<Rightarrow> nat" where
  "minlen (Cls p) = 1"
| "minlen (Lit w) = length w"
| "minlen (Assert a) = 0"
| "minlen (Seq r1 r2) = minlen r1 + minlen r2"
| "minlen (Alt r1 r2) = min (minlen r1) (minlen r2)"
| "minlen (Star r) = 0"
| "minlen (StarLazy r) = 0"

text \<open>The patterns of the catalogue, the rule declaration as a whole.\<close>

definition catalogue :: "regex list" where
  "catalogue =
     [multiCommentRegex, singleCommentRegex, stringRegex, ruleDeclarationRegex, variableRegex,
      metaRegex, hexNumberRegex, decimalRegex, hexPatternRegex, atomRegex, operatorRegex,
      keywordRegex]"

text \<open>A candidate lies in the text and is not empty.\<close>

definition well_formed :: "jstring \<Rightarrow> match \<Rightarrow> bool" where
  "well_formed s c = (start c < end' c \<and> end' c \<le> length s)"

text \<open>The sort key that the comparator of the source stands for.\<close>

definition rank :: "match \<Rightarrow> nat \<times> nat" where
  "rank m = (start m, priority m)"

text \<open>
  The overlap filter again, keeping the accepted candidates themselves, with their
  priority, instead of their copies without it: it tells which candidates are retained.
\<close>

fun kept_loop :: "match list \<Rightarrow> match list \<Rightarrow> match list" where
  "kept_loop [] accepted = accepted"
| "kept_loop (current # rest) accepted =
     (if list_ex (\<lambda>added. overlaps current added) accepted then kept_loop rest accepted
      else kept_loop rest (accepted @ [current]))"

text \<open>Each matcher run on its own over the text, in the order of the source.\<close>

definition matcher_runs :: "jstring \<Rightarrow> match list option list" where
  "matcher_runs s =
     [scan multiCommentRegex commentDecoration 1 s [],
      scan singleCommentRegex commentDecoration 1 s [],
      scan stringRegex stringDecoration 2 s [],
      scan_rule s [],
      scan variableRegex variableDecoration 3 s [],
      scan metaRegex metaDecoration 4 s [],
      scan hexNumberRegex numberDecoration 5 s [],
      scan decimalRegex numberDecoration 5 s [],
      scan hexPatternRegex numberDecoration 5 s [],
      scan atomRegex atomDecoration 6 s [],
      scan operatorRegex operatorDecoration 7 s [],
      scan keywordRegex keywordDecoration 8 s []]"

section \<open>The matcher\<close>

lemma ms_minlen: "e \<in> set (ms r s i) \<Longrightarrow> i + minlen r \<le> e"
proof (induction r s i arbitrary: e rule: ms.induct)
  case (1 p s i)
  then show ?case by (auto simp: ms.simps split: if_splits)
next
  case (2 w s i)
  then show ?case by (auto simp: ms.simps split: if_splits)
next
  case (3 a s i)
  then show ?case by (auto simp: ms.simps split: if_splits)
next
  case (4 r1 r2 s i)
  from "4.prems" obtain j where j: "j \<in> set (ms r1 s i)" and e: "e \<in> set (ms r2 s j)"
    by (auto simp: ms.simps)
  from "4.IH"(1)[OF j] "4.IH"(2)[OF j e] show ?case by simp
next
  case (5 r1 r2 s i)
  from "5.prems" have "e \<in> set (ms r1 s i) \<or> e \<in> set (ms r2 s i)" by (simp add: ms.simps)
  with "5.IH"(1)[of e] "5.IH"(2)[of e] show ?case by auto
next
  case (6 r s i)
  from "6.prems" consider "e = i"
    | j where "j \<in> set (ms r s i)" "i < j" "j \<le> length s" "e \<in> set (ms (Star r) s j)"
    by (auto simp: ms.simps(6)[of r s i])
  then show ?case
  proof cases
    case 1 then show ?thesis by simp
  next
    case 2
    with "6.IH"(2)[of j e] show ?thesis by simp
  qed
next
  case (7 r s i)
  from "7.prems" consider "e = i"
    | j where "j \<in> set (ms r s i)" "i < j" "j \<le> length s" "e \<in> set (ms (StarLazy r) s j)"
    by (auto simp: ms.simps(7)[of r s i])
  then show ?case
  proof cases
    case 1 then show ?thesis by simp
  next
    case 2
    with "7.IH"(2)[of j e] show ?thesis by simp
  qed
qed

lemma ms_upper: "e \<in> set (ms r s i) \<Longrightarrow> i \<le> length s \<Longrightarrow> e \<le> length s"
proof (induction r s i arbitrary: e rule: ms.induct)
  case (1 p s i)
  then show ?case by (auto simp: ms.simps split: if_splits)
next
  case (2 w s i)
  from "2.prems" have t: "take (length w) (drop i s) = w" and e: "e = i + length w"
    by (auto simp: ms.simps split: if_splits)
  from t have "length (take (length w) (drop i s)) = length w" by simp
  then have "length w \<le> length s - i" by simp
  with e "2.prems"(2) show ?case by simp
next
  case (3 a s i)
  then show ?case by (auto simp: ms.simps split: if_splits)
next
  case (4 r1 r2 s i)
  from "4.prems" obtain j where j: "j \<in> set (ms r1 s i)" and e: "e \<in> set (ms r2 s j)"
    by (auto simp: ms.simps)
  from "4.IH"(1)[OF j "4.prems"(2)] "4.IH"(2)[OF j e] show ?case by simp
next
  case (5 r1 r2 s i)
  from "5.prems" have "e \<in> set (ms r1 s i) \<or> e \<in> set (ms r2 s i)" by (simp add: ms.simps)
  with "5.IH"(1)[of e] "5.IH"(2)[of e] "5.prems"(2) show ?case by auto
next
  case (6 r s i)
  from "6.prems" consider "e = i"
    | j where "j \<in> set (ms r s i)" "i < j" "j \<le> length s" "e \<in> set (ms (Star r) s j)"
    by (auto simp: ms.simps(6)[of r s i])
  then show ?case
  proof cases
    case 1 with "6.prems" show ?thesis by simp
  next
    case 2
    with "6.IH"(2)[of j e] show ?thesis by simp
  qed
next
  case (7 r s i)
  from "7.prems" consider "e = i"
    | j where "j \<in> set (ms r s i)" "i < j" "j \<le> length s" "e \<in> set (ms (StarLazy r) s j)"
    by (auto simp: ms.simps(7)[of r s i])
  then show ?case
  proof cases
    case 1 with "7.prems" show ?thesis by simp
  next
    case 2
    with "7.IH"(2)[of j e] show ?thesis by simp
  qed
qed

lemma regexp_exec_Some:
  "regexp_exec m n lastIndex = Some (i, x) \<Longrightarrow>
     lastIndex \<le> i \<and> i \<le> n \<and> m i \<noteq> [] \<and> x = hd (m i) \<and> (\<forall>k. lastIndex \<le> k \<and> k < i \<longrightarrow> m k = [])"
proof (induction m n lastIndex rule: regexp_exec.induct)
  case (1 m n lastIndex)
  show ?case
  proof (cases "m lastIndex")
    case Nil
    with "1.prems" have le: "\<not> n < lastIndex" and r: "regexp_exec m n (Suc lastIndex) = Some (i, x)"
      by (auto simp: regexp_exec.simps[of m n lastIndex] split: if_splits)
    from "1.IH"[OF le Nil r]
    have ih: "Suc lastIndex \<le> i" "i \<le> n" "m i \<noteq> []" "x = hd (m i)"
      and gap: "\<And>k. Suc lastIndex \<le> k \<Longrightarrow> k < i \<Longrightarrow> m k = []" by auto
    have "m k = []" if "lastIndex \<le> k" "k < i" for k
    proof (cases "k = lastIndex")
      case True with Nil show ?thesis by simp
    next
      case False
      with that have "Suc lastIndex \<le> k" by simp
      from gap[OF this that(2)] show ?thesis .
    qed
    with ih show ?thesis by simp
  next
    case (Cons y ys)
    with "1.prems" show ?thesis
      by (auto simp: regexp_exec.simps[of m n lastIndex] split: if_splits)
  qed
qed

lemma regexp_exec_None:
  "regexp_exec m n lastIndex = None \<Longrightarrow> lastIndex \<le> k \<Longrightarrow> k \<le> n \<Longrightarrow> m k = []"
proof (induction m n lastIndex rule: regexp_exec.induct)
  case (1 m n lastIndex)
  from "1.prems" have le: "\<not> n < lastIndex" by simp
  show ?case
  proof (cases "m lastIndex")
    case Nil
    with "1.prems" le have r: "regexp_exec m n (Suc lastIndex) = None"
      by (auto simp: regexp_exec.simps[of m n lastIndex] split: if_splits)
    show ?thesis
    proof (cases "k = lastIndex")
      case True with Nil show ?thesis by simp
    next
      case False
      with "1.prems" have "Suc lastIndex \<le> k" by simp
      from "1.IH"[OF le Nil r this "1.prems"(3)] show ?thesis .
    qed
  next
    case (Cons y ys)
    with "1.prems" le show ?thesis
      by (auto simp: regexp_exec.simps[of m n lastIndex] split: if_splits)
  qed
qed

lemma exec_loop_total:
  assumes progress: "\<And>i x. x \<in> set (m i) \<Longrightarrow> i < endIndex x"
  shows "\<exists>new. exec_loop m endIndex push n lastIndex matches = Some (matches @ new)
           \<and> (\<forall>c \<in> set new. \<exists>i. lastIndex \<le> i \<and> i \<le> n \<and> m i \<noteq> [] \<and> c \<in> set (push i (hd (m i))))"
proof (induction "Suc n - lastIndex" arbitrary: lastIndex matches rule: less_induct)
  case less
  show ?case
  proof (cases "regexp_exec m n lastIndex")
    case None
    then have "exec_loop m endIndex push n lastIndex matches = Some (matches @ [])"
      by (simp add: exec_loop.simps[of m endIndex push n lastIndex])
    then show ?thesis by (intro exI[of _ "[]"]) simp
  next
    case (Some ix)
    obtain i x where ix: "ix = (i, x)" by (cases ix)
    from regexp_exec_Some[OF Some[unfolded ix]]
    have i: "lastIndex \<le> i" "i \<le> n" "m i \<noteq> []" "x = hd (m i)" by auto
    then have "x \<in> set (m i)" by simp
    from progress[OF this] have adv: "i < endIndex x" .
    with i have "Suc n - endIndex x < Suc n - lastIndex" by simp
    from less[OF this, of "matches @ push i x"] obtain new where
      new: "exec_loop m endIndex push n (endIndex x) (matches @ push i x) = Some ((matches @ push i x) @ new)"
      and all: "\<forall>c \<in> set new. \<exists>k. endIndex x \<le> k \<and> k \<le> n \<and> m k \<noteq> [] \<and> c \<in> set (push k (hd (m k)))"
      by blast
    have "exec_loop m endIndex push n lastIndex matches = Some (matches @ (push i x @ new))"
      using Some ix new by (simp add: exec_loop.simps[of m endIndex push n lastIndex])
    moreover have "\<forall>c \<in> set (push i x @ new). \<exists>k. lastIndex \<le> k \<and> k \<le> n \<and> m k \<noteq> [] \<and> c \<in> set (push k (hd (m k)))"
    proof
      fix c assume "c \<in> set (push i x @ new)"
      then consider "c \<in> set (push i x)" | "c \<in> set new" by auto
      then show "\<exists>k. lastIndex \<le> k \<and> k \<le> n \<and> m k \<noteq> [] \<and> c \<in> set (push k (hd (m k)))"
      proof cases
        case 1 with i show ?thesis by blast
      next
        case 2
        with all obtain k where "endIndex x \<le> k" "k \<le> n" "m k \<noteq> []" "c \<in> set (push k (hd (m k)))" by blast
        with adv i show ?thesis by (intro exI[of _ k]) simp
      qed
    qed
    ultimately show ?thesis by blast
  qed
qed

section \<open>The scans are total\<close>

lemma minlen_Plus: "minlen (Plus r) = minlen r"
  by (simp add: Plus_def)

lemma minlen_Opt: "minlen (Opt r) = 0"
  by (simp add: Opt_def)

lemma minlen_UpTo: "minlen (UpTo n r) = 0"
  by (cases n) simp_all

lemmas minlen_simps = minlen_Plus minlen_Opt minlen_UpTo

lemma scan_total:
  assumes len: "1 \<le> minlen r"
  shows "\<exists>new. scan r d p s matches = Some (matches @ new)
           \<and> (\<forall>c \<in> set new. start c < end' c \<and> end' c \<le> length s \<and> decoration c = d \<and> priority c = p
                 \<and> ms r s (start c) \<noteq> [] \<and> end' c = hd (ms r s (start c)))"
proof -
  have progress: "\<And>i x. x \<in> set (ms r s i) \<Longrightarrow> i < (\<lambda>e. e) x"
    using ms_minlen[of _ r s] len by fastforce
  from exec_loop_total[of "ms r s" "\<lambda>e. e" "push_whole d p" "length s" 0 matches, OF progress]
  obtain new where new: "exec_loop (ms r s) (\<lambda>e. e) (push_whole d p) (length s) 0 matches = Some (matches @ new)"
    and all: "\<forall>c \<in> set new. \<exists>i. 0 \<le> i \<and> i \<le> length s \<and> ms r s i \<noteq> [] \<and> c \<in> set (push_whole d p i (hd (ms r s i)))"
    by blast
  have "start c < end' c \<and> end' c \<le> length s \<and> decoration c = d \<and> priority c = p
          \<and> ms r s (start c) \<noteq> [] \<and> end' c = hd (ms r s (start c))" if "c \<in> set new" for c
  proof -
    from all that obtain i where i: "i \<le> length s" "ms r s i \<noteq> []"
      and c: "c \<in> set (push_whole d p i (hd (ms r s i)))" by blast
    let ?e = "hd (ms r s i)"
    from i have mem: "?e \<in> set (ms r s i)" by simp
    from ms_minlen[OF mem] len have lt: "i < ?e" by simp
    from ms_upper[OF mem i(1)] have up: "?e \<le> length s" .
    from c have "c = \<lparr>start = i, end' = i + (?e - i), decoration = d, priority = p\<rparr>"
      by (simp add: push_whole_def)
    with lt up i show ?thesis by simp
  qed
  with new show ?thesis unfolding scan_def by blast
qed

lemma rule_ms_elem:
  assumes "x \<in> set (rule_ms s i)"
  obtains e1 e2 e3 e where "x = (e1, e2, e3, e)" "e1 \<in> set (ms ruleGroup1 s i)"
    "e2 \<in> set (ms ruleGroup2 s e1)" "e3 \<in> set (ms ruleGroup3 s e2)" "e \<in> set (ms ruleRest s e3)"
  using assms unfolding rule_ms_def by auto

lemma minlen_rule:
  "minlen ruleGroup1 = 4" "minlen ruleGroup2 = 1" "minlen ruleGroup3 = 1" "minlen ruleRest = 1"
  by (simp_all add: ruleGroup1_def ruleGroup2_def ruleGroup3_def ruleRest_def minlen_simps str_def)

lemma rule_ms_bounds:
  assumes "(e1, e2, e3, e) \<in> set (rule_ms s i)"
  shows "i + 4 \<le> e1" "e1 < e2" "e2 < e3" "e3 < e" "i \<le> length s \<Longrightarrow> e \<le> length s"
proof -
  from assms have m: "e1 \<in> set (ms ruleGroup1 s i)" "e2 \<in> set (ms ruleGroup2 s e1)"
      "e3 \<in> set (ms ruleGroup3 s e2)" "e \<in> set (ms ruleRest s e3)"
    by (auto elim!: rule_ms_elem)
  from ms_minlen[OF m(1)] show "i + 4 \<le> e1" by (simp add: minlen_rule)
  from ms_minlen[OF m(2)] show "e1 < e2" by (simp add: minlen_rule)
  from ms_minlen[OF m(3)] show "e2 < e3" by (simp add: minlen_rule)
  from ms_minlen[OF m(4)] show "e3 < e" by (simp add: minlen_rule)
  show "e \<le> length s" if "i \<le> length s"
    using ms_upper[OF m(4) ms_upper[OF m(3) ms_upper[OF m(2) ms_upper[OF m(1) that]]]] .
qed

lemma scan_rule_total:
  "\<exists>new. scan_rule s matches = Some (matches @ new)
     \<and> (\<forall>c \<in> set new. start c < end' c \<and> end' c \<le> length s \<and> priority c = 3)"
proof -
  let ?endIndex = "\<lambda>(e1 :: nat, e2 :: nat, e3 :: nat, e :: nat). e"
  have progress: "\<And>i x. x \<in> set (rule_ms s i) \<Longrightarrow> i < ?endIndex x"
  proof -
    fix i x assume x: "x \<in> set (rule_ms s i)"
    obtain e1 e2 e3 e where xe: "x = (e1, e2, e3, e)" by (cases x)
    from rule_ms_bounds(1-4)[OF x[unfolded xe]] show "i < ?endIndex x" by (simp add: xe)
  qed
  from exec_loop_total[of "rule_ms s" ?endIndex push_rule "length s" 0 matches, OF progress]
  obtain new where new: "exec_loop (rule_ms s) ?endIndex push_rule (length s) 0 matches = Some (matches @ new)"
    and all: "\<forall>c \<in> set new. \<exists>i. 0 \<le> i \<and> i \<le> length s \<and> rule_ms s i \<noteq> [] \<and> c \<in> set (push_rule i (hd (rule_ms s i)))"
    by blast
  have "start c < end' c \<and> end' c \<le> length s \<and> priority c = 3" if "c \<in> set new" for c
  proof -
    from all that obtain i where i: "i \<le> length s" "rule_ms s i \<noteq> []"
      and c: "c \<in> set (push_rule i (hd (rule_ms s i)))" by blast
    obtain e1 e2 e3 e where xe: "hd (rule_ms s i) = (e1, e2, e3, e)" by (cases "hd (rule_ms s i)")
    from i(2) xe have mem: "(e1, e2, e3, e) \<in> set (rule_ms s i)" by (metis hd_in_set)
    note b = rule_ms_bounds[OF mem]
    from b(5)[OF i(1)] have "e \<le> length s" .
    with b(1-4) c show ?thesis
      by (auto simp: push_rule_def xe Let_def)
  qed
  with new show ?thesis unfolding scan_rule_def by blast
qed

lemma minlen_catalogue:
  "1 \<le> minlen multiCommentRegex" "1 \<le> minlen singleCommentRegex" "1 \<le> minlen stringRegex"
  "1 \<le> minlen ruleDeclarationRegex" "1 \<le> minlen variableRegex" "1 \<le> minlen metaRegex"
  "1 \<le> minlen hexNumberRegex" "1 \<le> minlen decimalRegex" "1 \<le> minlen hexPatternRegex"
  "1 \<le> minlen atomRegex" "1 \<le> minlen operatorRegex" "1 \<le> minlen keywordRegex"
  by (simp_all add: multiCommentRegex_def singleCommentRegex_def stringRegex_def
      ruleDeclarationRegex_def minlen_rule variableRegex_def metaRegex_def hexNumberRegex_def
      decimalRegex_def hexPatternRegex_def atomRegex_def operatorRegex_def keywordRegex_def
      keywordList_def Alts_def minlen_simps str_def)

lemma scan_keeps:
  assumes "1 \<le> minlen r" and "\<forall>c \<in> set matches. well_formed s c"
  shows "\<exists>out. scan r d p s matches = Some out \<and> (\<forall>c \<in> set out. well_formed s c)"
proof -
  from scan_total[OF assms(1), of d p s matches] obtain new where
    "scan r d p s matches = Some (matches @ new)" "\<forall>c \<in> set new. well_formed s c"
    unfolding well_formed_def by blast
  with assms(2) show ?thesis by auto
qed

lemma scan_rule_keeps:
  assumes "\<forall>c \<in> set matches. well_formed s c"
  shows "\<exists>out. scan_rule s matches = Some out \<and> (\<forall>c \<in> set out. well_formed s c)"
proof -
  from scan_rule_total[of s matches] obtain new where
    "scan_rule s matches = Some (matches @ new)" "\<forall>c \<in> set new. well_formed s c"
    unfolding well_formed_def by blast
  with assms show ?thesis by auto
qed

lemma collect_total:
  "\<exists>pool. collect s = Some pool \<and> (\<forall>c \<in> set pool. well_formed s c)"
proof -
  have m0: "\<forall>c \<in> set ([] :: match list). well_formed s c" by simp
  from scan_keeps[OF minlen_catalogue(1) m0]
  obtain m1 where m1: "scan multiCommentRegex commentDecoration 1 s [] = Some m1" "\<forall>c \<in> set m1. well_formed s c"
    by blast
  from scan_keeps[OF minlen_catalogue(2) m1(2)]
  obtain m2 where m2: "scan singleCommentRegex commentDecoration 1 s m1 = Some m2" "\<forall>c \<in> set m2. well_formed s c"
    by blast
  from scan_keeps[OF minlen_catalogue(3) m2(2)]
  obtain m3 where m3: "scan stringRegex stringDecoration 2 s m2 = Some m3" "\<forall>c \<in> set m3. well_formed s c"
    by blast
  from scan_rule_keeps[OF m3(2)]
  obtain m4 where m4: "scan_rule s m3 = Some m4" "\<forall>c \<in> set m4. well_formed s c"
    by blast
  from scan_keeps[OF minlen_catalogue(5) m4(2)]
  obtain m5 where m5: "scan variableRegex variableDecoration 3 s m4 = Some m5" "\<forall>c \<in> set m5. well_formed s c"
    by blast
  from scan_keeps[OF minlen_catalogue(6) m5(2)]
  obtain m6 where m6: "scan metaRegex metaDecoration 4 s m5 = Some m6" "\<forall>c \<in> set m6. well_formed s c"
    by blast
  from scan_keeps[OF minlen_catalogue(7) m6(2)]
  obtain m7 where m7: "scan hexNumberRegex numberDecoration 5 s m6 = Some m7" "\<forall>c \<in> set m7. well_formed s c"
    by blast
  from scan_keeps[OF minlen_catalogue(8) m7(2)]
  obtain m8 where m8: "scan decimalRegex numberDecoration 5 s m7 = Some m8" "\<forall>c \<in> set m8. well_formed s c"
    by blast
  from scan_keeps[OF minlen_catalogue(9) m8(2)]
  obtain m9 where m9: "scan hexPatternRegex numberDecoration 5 s m8 = Some m9" "\<forall>c \<in> set m9. well_formed s c"
    by blast
  from scan_keeps[OF minlen_catalogue(10) m9(2)]
  obtain m10 where m10: "scan atomRegex atomDecoration 6 s m9 = Some m10" "\<forall>c \<in> set m10. well_formed s c"
    by blast
  from scan_keeps[OF minlen_catalogue(11) m10(2)]
  obtain m11 where m11: "scan operatorRegex operatorDecoration 7 s m10 = Some m11" "\<forall>c \<in> set m11. well_formed s c"
    by blast
  from scan_keeps[OF minlen_catalogue(12) m11(2)]
  obtain m12 where m12: "scan keywordRegex keywordDecoration 8 s m11 = Some m12" "\<forall>c \<in> set m12. well_formed s c"
    by blast
  have "collect s = Some m12"
    by (simp del: One_nat_def add: collect_def m1(1) m2(1) m3(1) m4(1) m5(1) m6(1) m7(1) m8(1) m9(1) m10(1) m11(1) m12(1))
  with m12(2) show ?thesis by blast
qed

section \<open>The pool is made of the runs of the matchers\<close>

lemma ms_Seq: "ms (Seq r1 r2) s = (\<lambda>i. concat (map (ms r2 s) (ms r1 s i)))"
  by (rule ext) (simp add: ms.simps(4))

lemma rule_ms_whole: "map (\<lambda>(e1, e2, e3, e). e) (rule_ms s i) = ms ruleDeclarationRegex s i"
  by (simp add: rule_ms_def ruleDeclarationRegex_def ms_Seq map_concat comp_def)

lemma regexp_exec_first:
  assumes "lastIndex \<le> i" and "i \<le> n" and "m i \<noteq> []"
    and "\<forall>k. lastIndex \<le> k \<and> k < i \<longrightarrow> m k = []"
  shows "regexp_exec m n lastIndex = Some (i, hd (m i))"
proof (cases "regexp_exec m n lastIndex")
  case None
  from regexp_exec_None[OF None assms(1,2)] assms(3) show ?thesis by simp
next
  case (Some ix)
  obtain i' x where ix: "ix = (i', x)" by (cases ix)
  from regexp_exec_Some[OF Some[unfolded ix]]
  have p: "lastIndex \<le> i'" "m i' \<noteq> []" "x = hd (m i')"
    and gap: "\<forall>k. lastIndex \<le> k \<and> k < i' \<longrightarrow> m k = []" by auto
  have "\<not> i' < i" using assms(4) p(1,2) by blast
  moreover have "\<not> i < i'" using gap assms(1,3) by blast
  ultimately have "i' = i" by simp
  with Some ix p(3) show ?thesis by simp
qed

lemma exec_loop_isolated:
  assumes progress: "\<And>i x. x \<in> set (m i) \<Longrightarrow> i < endIndex x"
  shows "\<exists>new. (\<forall>matches. exec_loop m endIndex push n lastIndex matches = Some (matches @ new))
           \<and> (\<forall>i x. regexp_exec m n lastIndex = Some (i, x) \<longrightarrow> (\<exists>rest. new = push i x @ rest))"
proof (induction "Suc n - lastIndex" arbitrary: lastIndex rule: less_induct)
  case less
  show ?case
  proof (cases "regexp_exec m n lastIndex")
    case None
    then have "\<forall>matches. exec_loop m endIndex push n lastIndex matches = Some (matches @ [])"
      by (simp add: exec_loop.simps[of m endIndex push n lastIndex])
    with None show ?thesis by (intro exI[of _ "[]"]) simp
  next
    case (Some ix)
    obtain i x where ix: "ix = (i, x)" by (cases ix)
    from regexp_exec_Some[OF Some[unfolded ix]]
    have i: "lastIndex \<le> i" "i \<le> n" "m i \<noteq> []" "x = hd (m i)" by auto
    then have "x \<in> set (m i)" by simp
    from progress[OF this] have adv: "i < endIndex x" .
    with i have "Suc n - endIndex x < Suc n - lastIndex" by simp
    from less[OF this] obtain new where
      new: "\<forall>matches. exec_loop m endIndex push n (endIndex x) matches = Some (matches @ new)"
      by blast
    have "\<forall>matches. exec_loop m endIndex push n lastIndex matches = Some (matches @ (push i x @ new))"
      using Some ix new by (simp add: exec_loop.simps[of m endIndex push n lastIndex])
    moreover have "\<forall>i' x'. regexp_exec m n lastIndex = Some (i', x')
        \<longrightarrow> (\<exists>rest. push i x @ new = push i' x' @ rest)"
      using Some ix by simp
    ultimately show ?thesis by blast
  qed
qed

lemma scan_isolated:
  assumes len: "1 \<le> minlen r"
  shows "\<exists>new. scan r d p s [] = Some new \<and> (\<forall>matches. scan r d p s matches = Some (matches @ new))
     \<and> (\<forall>i. i \<le> length s \<and> ms r s i \<noteq> [] \<longrightarrow> new \<noteq> [])
     \<and> (\<forall>i. i \<le> length s \<and> ms r s i \<noteq> [] \<and> (\<forall>k < i. ms r s k = []) \<longrightarrow>
           (\<exists>c \<in> set new. start c = i))"
proof -
  have progress: "\<And>i x. x \<in> set (ms r s i) \<Longrightarrow> i < (\<lambda>e. e) x"
    using ms_minlen[of _ r s] len by fastforce
  from exec_loop_isolated[of "ms r s" "\<lambda>e. e" "push_whole d p" "length s" 0, OF progress]
  obtain new where
    new: "\<forall>matches. exec_loop (ms r s) (\<lambda>e. e) (push_whole d p) (length s) 0 matches = Some (matches @ new)"
    and first: "\<forall>i x. regexp_exec (ms r s) (length s) 0 = Some (i, x)
        \<longrightarrow> (\<exists>rest. new = push_whole d p i x @ rest)"
    by blast
  from new have 1: "scan r d p s [] = Some new" "\<forall>matches. scan r d p s matches = Some (matches @ new)"
    by (simp_all add: scan_def)
  have 2: "new \<noteq> []" if "i \<le> length s \<and> ms r s i \<noteq> []" for i
  proof -
    have "regexp_exec (ms r s) (length s) 0 \<noteq> None"
    proof
      assume n: "regexp_exec (ms r s) (length s) 0 = None"
      from regexp_exec_None[OF n, of i] that show False by simp
    qed
    then obtain ix where "regexp_exec (ms r s) (length s) 0 = Some ix" by blast
    then obtain i' x where "regexp_exec (ms r s) (length s) 0 = Some (i', x)" by (cases ix) simp
    with first obtain rest where "new = push_whole d p i' x @ rest" by blast
    then show ?thesis by (simp add: push_whole_def)
  qed
  have 3: "\<exists>c \<in> set new. start c = i"
    if "i \<le> length s \<and> ms r s i \<noteq> [] \<and> (\<forall>k < i. ms r s k = [])" for i
  proof -
    from that have "regexp_exec (ms r s) (length s) 0 = Some (i, hd (ms r s i))"
      by (intro regexp_exec_first) auto
    with first obtain rest where "new = push_whole d p i (hd (ms r s i)) @ rest" by blast
    then show ?thesis by (simp add: push_whole_def)
  qed
  from 1 2 3 show ?thesis by blast
qed

lemma scan_rule_isolated:
  "\<exists>new. scan_rule s [] = Some new \<and> (\<forall>matches. scan_rule s matches = Some (matches @ new))
     \<and> (\<forall>i. i \<le> length s \<and> ms ruleDeclarationRegex s i \<noteq> [] \<longrightarrow> new \<noteq> [])"
proof -
  let ?endIndex = "\<lambda>(e1 :: nat, e2 :: nat, e3 :: nat, e :: nat). e"
  have progress: "\<And>i x. x \<in> set (rule_ms s i) \<Longrightarrow> i < ?endIndex x"
  proof -
    fix i x assume x: "x \<in> set (rule_ms s i)"
    obtain e1 e2 e3 e where xe: "x = (e1, e2, e3, e)" by (cases x)
    from rule_ms_bounds(1-4)[OF x[unfolded xe]] show "i < ?endIndex x" by (simp add: xe)
  qed
  from exec_loop_isolated[of "rule_ms s" ?endIndex push_rule "length s" 0, OF progress]
  obtain new where
    new: "\<forall>matches. exec_loop (rule_ms s) ?endIndex push_rule (length s) 0 matches = Some (matches @ new)"
    and first: "\<forall>i x. regexp_exec (rule_ms s) (length s) 0 = Some (i, x)
        \<longrightarrow> (\<exists>rest. new = push_rule i x @ rest)"
    by blast
  from new have 1: "scan_rule s [] = Some new" "\<forall>matches. scan_rule s matches = Some (matches @ new)"
    by (simp_all add: scan_rule_def)
  have 2: "new \<noteq> []" if "i \<le> length s \<and> ms ruleDeclarationRegex s i \<noteq> []" for i
  proof -
    from that rule_ms_whole[of s i] have "rule_ms s i \<noteq> []" by auto
    have "regexp_exec (rule_ms s) (length s) 0 \<noteq> None"
    proof
      assume n: "regexp_exec (rule_ms s) (length s) 0 = None"
      from regexp_exec_None[OF n, of i] that \<open>rule_ms s i \<noteq> []\<close> show False by simp
    qed
    then obtain ix where "regexp_exec (rule_ms s) (length s) 0 = Some ix" by blast
    then obtain i' x where "regexp_exec (rule_ms s) (length s) 0 = Some (i', x)" by (cases ix) simp
    with first obtain rest where "new = push_rule i' x @ rest" by blast
    then show ?thesis by (cases x) (simp add: push_rule_def Let_def)
  qed
  from 1 2 show ?thesis by blast
qed

lemma collect_matcher_runs:
  "\<exists>runs. matcher_runs s = map Some runs \<and> collect s = Some (concat runs)
     \<and> (\<forall>r \<in> set catalogue. \<forall>i. i \<le> length s \<and> ms r s i \<noteq> [] \<longrightarrow> concat runs \<noteq> [])"
proof -
  note c = minlen_catalogue
  from scan_isolated[OF c(1), of commentDecoration 1 s] obtain n1 where
    n1: "scan multiCommentRegex commentDecoration 1 s [] = Some n1"
      "\<forall>matches. scan multiCommentRegex commentDecoration 1 s matches = Some (matches @ n1)"
      "\<forall>i. i \<le> length s \<and> ms multiCommentRegex s i \<noteq> [] \<longrightarrow> n1 \<noteq> []" by blast
  from scan_isolated[OF c(2), of commentDecoration 1 s] obtain n2 where
    n2: "scan singleCommentRegex commentDecoration 1 s [] = Some n2"
      "\<forall>matches. scan singleCommentRegex commentDecoration 1 s matches = Some (matches @ n2)"
      "\<forall>i. i \<le> length s \<and> ms singleCommentRegex s i \<noteq> [] \<longrightarrow> n2 \<noteq> []" by blast
  from scan_isolated[OF c(3), of stringDecoration 2 s] obtain n3 where
    n3: "scan stringRegex stringDecoration 2 s [] = Some n3"
      "\<forall>matches. scan stringRegex stringDecoration 2 s matches = Some (matches @ n3)"
      "\<forall>i. i \<le> length s \<and> ms stringRegex s i \<noteq> [] \<longrightarrow> n3 \<noteq> []" by blast
  from scan_rule_isolated[of s] obtain n4 where
    n4: "scan_rule s [] = Some n4"
      "\<forall>matches. scan_rule s matches = Some (matches @ n4)"
      "\<forall>i. i \<le> length s \<and> ms ruleDeclarationRegex s i \<noteq> [] \<longrightarrow> n4 \<noteq> []" by blast
  from scan_isolated[OF c(5), of variableDecoration 3 s] obtain n5 where
    n5: "scan variableRegex variableDecoration 3 s [] = Some n5"
      "\<forall>matches. scan variableRegex variableDecoration 3 s matches = Some (matches @ n5)"
      "\<forall>i. i \<le> length s \<and> ms variableRegex s i \<noteq> [] \<longrightarrow> n5 \<noteq> []" by blast
  from scan_isolated[OF c(6), of metaDecoration 4 s] obtain n6 where
    n6: "scan metaRegex metaDecoration 4 s [] = Some n6"
      "\<forall>matches. scan metaRegex metaDecoration 4 s matches = Some (matches @ n6)"
      "\<forall>i. i \<le> length s \<and> ms metaRegex s i \<noteq> [] \<longrightarrow> n6 \<noteq> []" by blast
  from scan_isolated[OF c(7), of numberDecoration 5 s] obtain n7 where
    n7: "scan hexNumberRegex numberDecoration 5 s [] = Some n7"
      "\<forall>matches. scan hexNumberRegex numberDecoration 5 s matches = Some (matches @ n7)"
      "\<forall>i. i \<le> length s \<and> ms hexNumberRegex s i \<noteq> [] \<longrightarrow> n7 \<noteq> []" by blast
  from scan_isolated[OF c(8), of numberDecoration 5 s] obtain n8 where
    n8: "scan decimalRegex numberDecoration 5 s [] = Some n8"
      "\<forall>matches. scan decimalRegex numberDecoration 5 s matches = Some (matches @ n8)"
      "\<forall>i. i \<le> length s \<and> ms decimalRegex s i \<noteq> [] \<longrightarrow> n8 \<noteq> []" by blast
  from scan_isolated[OF c(9), of numberDecoration 5 s] obtain n9 where
    n9: "scan hexPatternRegex numberDecoration 5 s [] = Some n9"
      "\<forall>matches. scan hexPatternRegex numberDecoration 5 s matches = Some (matches @ n9)"
      "\<forall>i. i \<le> length s \<and> ms hexPatternRegex s i \<noteq> [] \<longrightarrow> n9 \<noteq> []" by blast
  from scan_isolated[OF c(10), of atomDecoration 6 s] obtain n10 where
    n10: "scan atomRegex atomDecoration 6 s [] = Some n10"
      "\<forall>matches. scan atomRegex atomDecoration 6 s matches = Some (matches @ n10)"
      "\<forall>i. i \<le> length s \<and> ms atomRegex s i \<noteq> [] \<longrightarrow> n10 \<noteq> []" by blast
  from scan_isolated[OF c(11), of operatorDecoration 7 s] obtain n11 where
    n11: "scan operatorRegex operatorDecoration 7 s [] = Some n11"
      "\<forall>matches. scan operatorRegex operatorDecoration 7 s matches = Some (matches @ n11)"
      "\<forall>i. i \<le> length s \<and> ms operatorRegex s i \<noteq> [] \<longrightarrow> n11 \<noteq> []" by blast
  from scan_isolated[OF c(12), of keywordDecoration 8 s] obtain n12 where
    n12: "scan keywordRegex keywordDecoration 8 s [] = Some n12"
      "\<forall>matches. scan keywordRegex keywordDecoration 8 s matches = Some (matches @ n12)"
      "\<forall>i. i \<le> length s \<and> ms keywordRegex s i \<noteq> [] \<longrightarrow> n12 \<noteq> []" by blast
  let ?runs = "[n1, n2, n3, n4, n5, n6, n7, n8, n9, n10, n11, n12]"
  have runs: "matcher_runs s = map Some ?runs"
    by (simp del: One_nat_def add: matcher_runs_def n1(1) n2(1) n3(1) n4(1) n5(1) n6(1) n7(1)
        n8(1) n9(1) n10(1) n11(1) n12(1))
  have coll: "collect s = Some (concat ?runs)"
    by (simp del: One_nat_def add: collect_def n1(1) n2(2) n3(2) n4(2) n5(2) n6(2) n7(2) n8(2)
        n9(2) n10(2) n11(2) n12(2))
  have "concat ?runs \<noteq> []" if "r \<in> set catalogue" "i \<le> length s \<and> ms r s i \<noteq> []" for r i
  proof -
    from that(1) consider "r = multiCommentRegex" | "r = singleCommentRegex" | "r = stringRegex"
      | "r = ruleDeclarationRegex" | "r = variableRegex" | "r = metaRegex" | "r = hexNumberRegex"
      | "r = decimalRegex" | "r = hexPatternRegex" | "r = atomRegex" | "r = operatorRegex"
      | "r = keywordRegex"
      unfolding catalogue_def by auto
    then show ?thesis
    proof cases
      case 1 with that(2) n1(3) have "n1 \<noteq> []" by blast then show ?thesis by simp
    next
      case 2 with that(2) n2(3) have "n2 \<noteq> []" by blast then show ?thesis by simp
    next
      case 3 with that(2) n3(3) have "n3 \<noteq> []" by blast then show ?thesis by simp
    next
      case 4 with that(2) n4(3) have "n4 \<noteq> []" by blast then show ?thesis by simp
    next
      case 5 with that(2) n5(3) have "n5 \<noteq> []" by blast then show ?thesis by simp
    next
      case 6 with that(2) n6(3) have "n6 \<noteq> []" by blast then show ?thesis by simp
    next
      case 7 with that(2) n7(3) have "n7 \<noteq> []" by blast then show ?thesis by simp
    next
      case 8 with that(2) n8(3) have "n8 \<noteq> []" by blast then show ?thesis by simp
    next
      case 9 with that(2) n9(3) have "n9 \<noteq> []" by blast then show ?thesis by simp
    next
      case 10 with that(2) n10(3) have "n10 \<noteq> []" by blast then show ?thesis by simp
    next
      case 11 with that(2) n11(3) have "n11 \<noteq> []" by blast then show ?thesis by simp
    next
      case 12 with that(2) n12(3) have "n12 \<noteq> []" by blast then show ?thesis by simp
    qed
  qed
  with runs coll show ?thesis by blast
qed

section \<open>Sorting and filtering\<close>

lemma rank_le_start: "rank a \<le> rank b \<Longrightarrow> start a \<le> start b"
  by (auto simp: rank_def less_eq_prod_def)

lemma compare_le_iff: "compare a b \<le> 0 \<longleftrightarrow> rank a \<le> rank b"
  by (auto simp: compare_def rank_def less_eq_prod_def)

lemma insert_sorted_compare: "insert_sorted compare x ys = insort_key rank x ys"
  by (induction ys) (simp_all add: compare_le_iff)

lemma array_sort_compare: "array_sort compare xs = sort_key rank xs"
proof -
  have "insert_sorted compare = insort_key rank"
    by (intro ext) (rule insert_sorted_compare)
  then show ?thesis by (simp add: array_sort_def sort_key_def)
qed

lemma sorted_array_sort: "sorted_wrt (\<lambda>x y. rank x \<le> rank y) (array_sort compare xs)"
  using sorted_sort_key[of rank xs] by (simp add: array_sort_compare sorted_map)

lemma set_array_sort: "set (array_sort compare xs) = set xs"
  by (simp add: array_sort_compare)

lemma overlaps_to_span: "overlaps c (to_span a) = overlaps c a"
  by (simp add: overlaps_def to_span_def)

lemma filter_loop_kept: "filter_loop cs (map to_span accepted) = map to_span (kept_loop cs accepted)"
proof (induction cs arbitrary: accepted)
  case Nil
  show ?case by simp
next
  case (Cons c cs)
  have ex: "list_ex (\<lambda>added. overlaps c added) (map to_span accepted)
              = list_ex (\<lambda>added. overlaps c added) accepted"
    by (simp add: list_ex_iff overlaps_to_span)
  show ?case
  proof (cases "list_ex (\<lambda>added. overlaps c added) accepted")
    case True
    with ex Cons.IH[of accepted] show ?thesis by simp
  next
    case False
    with ex Cons.IH[of "accepted @ [c]"] show ?thesis by simp
  qed
qed

lemma kept_loop_prefix: "\<exists>ys. kept_loop cs accepted = accepted @ ys"
proof (induction cs arbitrary: accepted)
  case Nil
  show ?case by simp
next
  case (Cons c cs)
  show ?case
  proof (cases "list_ex (\<lambda>added. overlaps c added) accepted")
    case True
    with Cons.IH[of accepted] show ?thesis by simp
  next
    case False
    from Cons.IH[of "accepted @ [c]"] obtain ys where "kept_loop cs (accepted @ [c]) = (accepted @ [c]) @ ys"
      by blast
    with False show ?thesis by simp
  qed
qed

lemma kept_loop_subseq: "subseq (kept_loop cs accepted) (accepted @ cs)"
proof (induction cs arbitrary: accepted)
  case Nil
  show ?case by simp
next
  case (Cons c cs)
  show ?case
  proof (cases "list_ex (\<lambda>added. overlaps c added) accepted")
    case True
    have "subseq (accepted @ cs) (accepted @ c # cs)"
      by (simp add: subseq_append' list_emb_Cons)
    with Cons.IH[of accepted] True show ?thesis
      by (auto intro: subseq_order.order_trans)
  next
    case False
    with Cons.IH[of "accepted @ [c]"] show ?thesis by simp
  qed
qed

lemma subseq_set_subset: "subseq xs ys \<Longrightarrow> set xs \<subseteq> set ys"
proof
  fix x assume "subseq xs ys" and "x \<in> set xs"
  then obtain y where "y \<in> set ys" and "x = y" by (rule list_emb_set)
  then show "x \<in> set ys" by simp
qed

lemma kept_loop_disjoint:
  assumes "sorted_wrt (\<lambda>x y. start x \<le> start y) (accepted @ cs)"
    and "\<forall>c \<in> set cs. start c < end' c"
    and "sorted_wrt (\<lambda>x y. end' x \<le> start y) accepted"
  shows "sorted_wrt (\<lambda>x y. end' x \<le> start y) (kept_loop cs accepted)"
  using assms
proof (induction cs arbitrary: accepted)
  case Nil
  then show ?case by simp
next
  case (Cons c cs)
  from Cons.prems(1) have srt: "sorted_wrt (\<lambda>x y. start x \<le> start y) (accepted @ cs)"
    and before: "\<forall>a \<in> set accepted. start a \<le> start c"
    and srt': "sorted_wrt (\<lambda>x y. start x \<le> start y) ((accepted @ [c]) @ cs)"
    by (auto simp: sorted_wrt_append)
  from Cons.prems(2) have ne: "start c < end' c" and nes: "\<forall>c \<in> set cs. start c < end' c" by auto
  show ?case
  proof (cases "list_ex (\<lambda>added. overlaps c added) accepted")
    case True
    with Cons.IH[OF srt nes Cons.prems(3)] show ?thesis by simp
  next
    case False
    have "end' a \<le> start c" if "a \<in> set accepted" for a
    proof -
      from False that have "\<not> overlaps c a" by (auto simp: list_ex_iff)
      moreover from before that have "start a \<le> start c" by blast
      ultimately show ?thesis using ne by (auto simp: overlaps_def)
    qed
    with Cons.prems(3) have "sorted_wrt (\<lambda>x y. end' x \<le> start y) (accepted @ [c])"
      by (auto simp: sorted_wrt_append)
    from Cons.IH[OF srt' nes this] False show ?thesis by simp
  qed
qed

lemma kept_loop_rejected:
  assumes "sorted_wrt (\<lambda>x y. rank x \<le> rank y) (accepted @ cs)"
    and "c \<in> set cs" and "c \<notin> set (kept_loop cs accepted)"
  shows "\<exists>x \<in> set (kept_loop cs accepted). overlaps c x \<and> rank x \<le> rank c"
  using assms
proof (induction cs arbitrary: accepted)
  case Nil
  then show ?case by simp
next
  case (Cons d cs)
  from Cons.prems(1) have srt: "sorted_wrt (\<lambda>x y. rank x \<le> rank y) (accepted @ cs)"
    and before: "\<forall>a \<in> set accepted. rank a \<le> rank d"
    and srt': "sorted_wrt (\<lambda>x y. rank x \<le> rank y) ((accepted @ [d]) @ cs)"
    by (auto simp: sorted_wrt_append)
  show ?case
  proof (cases "list_ex (\<lambda>added. overlaps d added) accepted")
    case True
    note rej = this
    show ?thesis
    proof (cases "c = d")
      case True
      from rej obtain x where x: "x \<in> set accepted" "overlaps d x" by (auto simp: list_ex_iff)
      from kept_loop_prefix[of cs accepted] x(1) have "x \<in> set (kept_loop cs accepted)" by auto
      with x before True rej show ?thesis by auto
    next
      case False
      with Cons.prems(2) have "c \<in> set cs" by simp
      moreover from Cons.prems(3) rej have "c \<notin> set (kept_loop cs accepted)" by simp
      ultimately show ?thesis using Cons.IH[OF srt] rej by simp
    qed
  next
    case False
    note acc = this
    from kept_loop_prefix[of cs "accepted @ [d]"]
    have din: "d \<in> set (kept_loop cs (accepted @ [d]))" by auto
    from Cons.prems(3) acc have notin: "c \<notin> set (kept_loop cs (accepted @ [d]))" by simp
    with din have "c \<noteq> d" by auto
    with Cons.prems(2) have "c \<in> set cs" by simp
    from Cons.IH[OF srt' this notin] acc show ?thesis by simp
  qed
qed

lemma kept_loop_lower_priority:
  assumes srt: "sorted_wrt (\<lambda>x y. rank x \<le> rank y) cs"
    and ne: "\<forall>c \<in> set cs. start c < end' c"
    and a: "a \<in> set cs" and b: "b \<in> set cs"
    and same: "start a = start b" and prio: "priority a < priority b"
  shows "b \<notin> set (kept_loop cs [])"
proof
  assume bk: "b \<in> set (kept_loop cs [])"
  let ?K = "kept_loop cs []"
  have "sorted_wrt (\<lambda>x y. start x \<le> start y) ([] @ cs)"
    using srt by (auto intro: sorted_wrt_mono_rel[OF _ srt] rank_le_start)
  from kept_loop_disjoint[OF this ne] have dis: "sorted_wrt (\<lambda>x y. end' x \<le> start y) ?K" by simp
  from subseq_set_subset[OF kept_loop_subseq[of cs "[]"]] have sub: "set ?K \<subseteq> set cs"
    by simp
  have apart: "end' x \<le> start y \<or> end' y \<le> start x" if "x \<in> set ?K" "y \<in> set ?K" "x \<noteq> y" for x y
  proof -
    from that obtain i j where ij: "i < length ?K" "j < length ?K" "?K ! i = x" "?K ! j = y"
      by (auto simp: in_set_conv_nth)
    with that(3) have "i \<noteq> j" by auto
    then consider "i < j" | "j < i" by linarith
    then show ?thesis
    proof cases
      case 1
      from sorted_wrt_nth_less[OF dis 1 ij(2)] ij show ?thesis by simp
    next
      case 2
      from sorted_wrt_nth_less[OF dis 2 ij(1)] ij show ?thesis by simp
    qed
  qed
  from a b ne have nea: "start a < end' a" and neb: "start b < end' b" by auto
  from prio have "a \<noteq> b" by auto
  have "a \<notin> set ?K"
  proof
    assume "a \<in> set ?K"
    from apart[OF this bk \<open>a \<noteq> b\<close>] same nea neb show False by auto
  qed
  with kept_loop_rejected[of "[]" cs a] srt a obtain x where
    x: "x \<in> set ?K" "overlaps a x" "rank x \<le> rank a" by auto
  from x(3) prio same have "x \<noteq> b" by (auto simp: rank_def less_eq_prod_def)
  from x(1) sub ne have nex: "start x < end' x" by auto
  from rank_le_start[OF x(3)] have "start x \<le> start a" .
  with apart[OF x(1) bk \<open>x \<noteq> b\<close>] x(2) same neb show False
    by (auto simp: overlaps_def)
qed

section \<open>The scan as a whole\<close>

lemma highlightYara_kept:
  "collect s = Some pool \<Longrightarrow>
     highlightYara s = Some (map to_span (kept_loop (array_sort compare pool) []))"
  using filter_loop_kept[of "array_sort compare pool" "[]"] by (simp add: highlightYara_def)

lemma kept_sorted_pool:
  assumes ne: "\<forall>c \<in> set pool. start c < end' c"
  shows "sorted_wrt (\<lambda>x y. end' x \<le> start y) (kept_loop (array_sort compare pool) [])"
    and "set (kept_loop (array_sort compare pool) []) \<subseteq> set pool"
proof -
  let ?cs = "array_sort compare pool"
  have "sorted_wrt (\<lambda>x y. start x \<le> start y) ?cs"
    by (rule sorted_wrt_mono_rel[OF _ sorted_array_sort]) (rule rank_le_start)
  then have srt: "sorted_wrt (\<lambda>x y. start x \<le> start y) ([] @ ?cs)" by simp
  from ne have nes: "\<forall>c \<in> set ?cs. start c < end' c" by (simp only: set_array_sort)
  have nil: "sorted_wrt (\<lambda>x y. end' x \<le> start y) ([] :: match list)" by simp
  from kept_loop_disjoint[OF srt nes nil]
  show "sorted_wrt (\<lambda>x y. end' x \<le> start y) (kept_loop ?cs [])" .
  from subseq_set_subset[OF kept_loop_subseq[of ?cs "[]"]]
  show "set (kept_loop ?cs []) \<subseteq> set pool"
    by (simp add: set_array_sort)
qed

lemma highlightYara_total:
  "\<exists>pool K. collect s = Some pool \<and> (\<forall>c \<in> set pool. well_formed s c)
      \<and> K = kept_loop (array_sort compare pool) []
      \<and> highlightYara s = Some (map to_span K)
      \<and> sorted_wrt (\<lambda>x y. end' x \<le> start y) K \<and> set K \<subseteq> set pool"
proof -
  from collect_total[of s] obtain pool where
    pool: "collect s = Some pool" "\<forall>c \<in> set pool. well_formed s c" by blast
  from pool(2) have ne: "\<forall>c \<in> set pool. start c < end' c" by (simp add: well_formed_def)
  from highlightYara_kept[OF pool(1)] kept_sorted_pool[OF ne] pool show ?thesis by blast
qed

lemma to_span_sel: "start (to_span c) = start c" "end' (to_span c) = end' c"
  "decoration (to_span c) = decoration c"
  by (simp_all add: to_span_def)


section \<open>The walk over the sorted pool\<close>

lemma filter_loop_append: "filter_loop (xs @ ys) acc = filter_loop ys (filter_loop xs acc)"
  by (induction xs arbitrary: acc) (simp_all add: Let_def)

lemma filter_loop_prefix:
  "\<exists>more. filter_loop ys acc = acc @ more \<and> set more \<subseteq> to_span ` set ys"
proof (induction ys arbitrary: acc)
  case Nil
  show ?case by simp
next
  case (Cons c ys)
  show ?case
  proof (cases "list_ex (\<lambda>added. overlaps c added) acc")
    case True
    from Cons.IH[of acc] obtain more where
      "filter_loop ys acc = acc @ more" "set more \<subseteq> to_span ` set ys" by blast
    with True show ?thesis by auto
  next
    case False
    from Cons.IH[of "acc @ [to_span c]"] obtain more where
      m: "filter_loop ys (acc @ [to_span c]) = (acc @ [to_span c]) @ more"
        "set more \<subseteq> to_span ` set ys" by blast
    with False have "filter_loop (c # ys) acc = acc @ (to_span c # more)" by simp
    moreover from m(2) have "set (to_span c # more) \<subseteq> to_span ` set (c # ys)" by auto
    ultimately show ?thesis by blast
  qed
qed

lemma filter_loop_snoc:
  "filter_loop (cs @ [c]) acc =
     (if \<exists>a \<in> set (filter_loop cs acc). overlaps c a then filter_loop cs acc
      else filter_loop cs acc @ [to_span c])"
  by (simp add: filter_loop_append list_ex_iff Let_def)

lemma filter_loop_split:
  "\<exists>more. filter_loop (cs @ c # rest) [] =
       (if \<exists>a \<in> set (filter_loop cs []). overlaps c a then filter_loop cs []
        else filter_loop cs [] @ [to_span c]) @ more
     \<and> set more \<subseteq> to_span ` set rest"
proof -
  have "filter_loop (cs @ c # rest) [] = filter_loop rest (filter_loop (cs @ [c]) [])"
    using filter_loop_append[of "cs @ [c]" rest "[]"] by simp
  with filter_loop_prefix[of rest "filter_loop (cs @ [c]) []"] show ?thesis
    by (simp only: filter_loop_snoc)
qed

lemma rank_fun: "rank = (\<lambda>m. (start m, priority m))"
  by (rule ext) (simp add: rank_def)

lemma sorted_pool_head:
  assumes "pool \<noteq> []"
  shows "hd (array_sort compare pool) \<in> set pool"
    and "\<forall>c \<in> set pool. start (hd (array_sort compare pool)) < start c
           \<or> (start (hd (array_sort compare pool)) = start c
               \<and> priority (hd (array_sort compare pool)) \<le> priority c)"
    and "hd (filter (\<lambda>c. start c = start (hd (array_sort compare pool))
                        \<and> priority c = priority (hd (array_sort compare pool))) pool)
           = hd (array_sort compare pool)"
proof -
  let ?xs = "array_sort compare pool"
  let ?h = "hd ?xs"
  from assms have ne: "?xs \<noteq> []" using set_array_sort[of pool] by (metis set_empty)
  then obtain t where xs: "?xs = ?h # t" by (cases ?xs) auto
  from ne have "?h \<in> set ?xs" by simp
  then show "?h \<in> set pool" by (simp only: set_array_sort)
  have srt: "sorted_wrt (\<lambda>x y. rank x \<le> rank y) (?h # t)"
    using sorted_array_sort[of pool] xs by simp
  show "\<forall>c \<in> set pool. start ?h < start c \<or> (start ?h = start c \<and> priority ?h \<le> priority c)"
  proof
    fix c assume "c \<in> set pool"
    then have "c \<in> set (?h # t)" using set_array_sort[of pool] xs by simp
    then have "rank ?h \<le> rank c"
    proof (cases "c = ?h")
      case True then show ?thesis by simp
    next
      case False
      with \<open>c \<in> set (?h # t)\<close> have "c \<in> set t" by simp
      with srt show ?thesis by simp
    qed
    then show "start ?h < start c \<or> (start ?h = start c \<and> priority ?h \<le> priority c)"
      by (auto simp: rank_def less_eq_prod_def)
  qed
  have "filter (\<lambda>c. rank c = rank ?h) (sort_key rank pool) = filter (\<lambda>c. rank c = rank ?h) pool"
    by (rule sort_key_stable)
  then have "filter (\<lambda>c. rank c = rank ?h) pool = filter (\<lambda>c. rank c = rank ?h) (?h # t)"
    using xs by (simp only: array_sort_compare)
  then have "hd (filter (\<lambda>c. rank c = rank ?h) pool) = ?h" by simp
  then show "hd (filter (\<lambda>c. start c = start ?h \<and> priority c = priority ?h) pool) = ?h"
    by (simp add: rank_def)
qed

section \<open>Evaluation on concrete texts\<close>

lemma UpTo_numeral: "UpTo (numeral k) r = Alt (Seq r (UpTo (pred_numeral k) r)) (Lit [])"
  by (simp add: numeral_eq_Suc)

lemmas class_defs = is_digit_def is_word_def is_line_terminator_def is_space_def is_any_def
  is_dot_def is_string_char_def is_name_start_def is_hex_def is_hex_or_wildcard_def
  is_dot_or_word_def is_operator_def word_at_def word_boundary_def line_start_def line_end_def
  input_end_def not_after_def not_before_def

lemmas regex_defs = multiCommentRegex_def singleCommentRegex_def stringRegex_def ruleGroup1_def
  ruleGroup2_def ruleGroup3_def ruleRest_def variableRegex_def metaRegex_def hexNumberRegex_def
  decimalRegex_def hexPatternRegex_def atomRegex_def operatorRegex_def keywordRegex_def
  keywordList_def Plus_def Opt_def Alts_def UpTo_numeral

lemmas scan_defs = ms.simps regexp_exec.simps exec_loop.simps class_defs regex_defs str_def cu_def
  push_whole_def scan_def scan_rule_def rule_ms_def push_rule_def collect_def

lemma collect_scenario_text: "collect scenario_text = Some scenario_pool"
  by (simp add: scan_defs scenario_text_def scenario_pool_def)

lemma sorted_scenario_pool:
  "array_sort compare scenario_pool =
     [\<lparr>start = 0, end' = 8, decoration = commentDecoration, priority = 1\<rparr>,
      \<lparr>start = 0, end' = 2, decoration = operatorDecoration, priority = 7\<rparr>,
      \<lparr>start = 9, end' = 13, decoration = keywordDecoration, priority = 3\<rparr>,
      \<lparr>start = 9, end' = 13, decoration = keywordDecoration, priority = 8\<rparr>,
      \<lparr>start = 14, end' = 17, decoration = ruleNameDecoration, priority = 3\<rparr>,
      \<lparr>start = 20, end' = 29, decoration = keywordDecoration, priority = 8\<rparr>,
      \<lparr>start = 29, end' = 30, decoration = operatorDecoration, priority = 7\<rparr>,
      \<lparr>start = 31, end' = 35, decoration = atomDecoration, priority = 6\<rparr>]"
  by (simp add: scenario_pool_def array_sort_def compare_def)

lemma highlightYara_scenario_text:
  "highlightYara scenario_text = Some
     [\<lparr>start = 0, end' = 8, decoration = commentDecoration\<rparr>,
      \<lparr>start = 9, end' = 13, decoration = keywordDecoration\<rparr>,
      \<lparr>start = 14, end' = 17, decoration = ruleNameDecoration\<rparr>,
      \<lparr>start = 20, end' = 29, decoration = keywordDecoration\<rparr>,
      \<lparr>start = 29, end' = 30, decoration = operatorDecoration\<rparr>,
      \<lparr>start = 31, end' = 35, decoration = atomDecoration\<rparr>]"
  by (simp add: highlightYara_def collect_scenario_text sorted_scenario_pool overlaps_def to_span_def)

lemma scenario_output_length: "highlightYara scenario_text = Some out \<Longrightarrow> length out = 6"
  by (auto simp: highlightYara_scenario_text)

lemma kept_scenario_pool:
  "kept_loop (array_sort compare scenario_pool) [] =
     [\<lparr>start = 0, end' = 8, decoration = commentDecoration, priority = 1\<rparr>,
      \<lparr>start = 9, end' = 13, decoration = keywordDecoration, priority = 3\<rparr>,
      \<lparr>start = 14, end' = 17, decoration = ruleNameDecoration, priority = 3\<rparr>,
      \<lparr>start = 20, end' = 29, decoration = keywordDecoration, priority = 8\<rparr>,
      \<lparr>start = 29, end' = 30, decoration = operatorDecoration, priority = 7\<rparr>,
      \<lparr>start = 31, end' = 35, decoration = atomDecoration, priority = 6\<rparr>]"
  by (simp add: sorted_scenario_pool overlaps_def)

lemma scan_multiComment_unterminated:
  "scan multiCommentRegex commentDecoration 1 unterminated_text [] = Some []"
  by (simp add: scan_defs unterminated_text_def)

lemma collect_unterminated_text:
  "collect unterminated_text =
     Some [\<lparr>start = 0, end' = 2, decoration = operatorDecoration, priority = 7\<rparr>]"
  by (simp add: scan_defs unterminated_text_def)

lemma highlightYara_unterminated_text:
  "highlightYara unterminated_text = Some [\<lparr>start = 0, end' = 2, decoration = operatorDecoration\<rparr>]"
  by (simp add: highlightYara_def collect_unterminated_text array_sort_def overlaps_def to_span_def)

lemma collect_empty: "collect [] = Some []"
  by (simp add: scan_defs)

lemma collect_nested_comment_text: "collect nested_comment_text = Some nested_comment_pool"
  by (simp add: scan_defs nested_comment_text_def nested_comment_pool_def)

lemma sorted_nested_comment_pool:
  "array_sort compare nested_comment_pool =
     [\<lparr>start = 0, end' = 14, decoration = commentDecoration, priority = 1\<rparr>,
      \<lparr>start = 0, end' = 2, decoration = operatorDecoration, priority = 7\<rparr>,
      \<lparr>start = 7, end' = 18, decoration = commentDecoration, priority = 1\<rparr>,
      \<lparr>start = 7, end' = 9, decoration = operatorDecoration, priority = 7\<rparr>,
      \<lparr>start = 16, end' = 18, decoration = operatorDecoration, priority = 7\<rparr>]"
  by (simp add: nested_comment_pool_def array_sort_def compare_def)

lemma highlightYara_nested_comment_text:
  "highlightYara nested_comment_text = Some
     [\<lparr>start = 0, end' = 14, decoration = commentDecoration\<rparr>,
      \<lparr>start = 16, end' = 18, decoration = operatorDecoration\<rparr>]"
  by (simp add: highlightYara_def collect_nested_comment_text sorted_nested_comment_pool
      overlaps_def to_span_def)

lemma scan_string_open_string_text:
  "scan stringRegex stringDecoration 2 open_string_text [] =
     Some [\<lparr>start = 0, end' = 4, decoration = stringDecoration, priority = 2\<rparr>]"
  by (simp add: scan_defs open_string_text_def)

section \<open>The claims\<close>

text \<open>
  C1. For every text the scan returns a list of spans in which every earlier span ends at
  or before the start of every later one, the starts are strictly ascending, and no two
  spans have the same start and end.
\<close>

theorem output_sorted_disjoint:
  "\<exists>out. highlightYara s = Some out
     \<and> (\<forall>i j. i < j \<and> j < length out \<longrightarrow> end' (out ! i) \<le> start (out ! j))
     \<and> (\<forall>i j. i < j \<and> j < length out \<longrightarrow> start (out ! i) < start (out ! j))
     \<and> (\<forall>i j. i < j \<and> j < length out \<longrightarrow>
           (start (out ! i), end' (out ! i)) \<noteq> (start (out ! j), end' (out ! j)))"
proof -
  from highlightYara_total[of s] obtain pool K where
    wf: "\<forall>c \<in> set pool. well_formed s c" and out: "highlightYara s = Some (map to_span K)"
    and dis: "sorted_wrt (\<lambda>x y. end' x \<le> start y) K" and sub: "set K \<subseteq> set pool"
    by blast
  have a: "end' (K ! i) \<le> start (K ! j)" if "i < j" "j < length K" for i j
    using sorted_wrt_nth_less[OF dis that] .
  have b: "start (K ! i) < end' (K ! i)" if "i < length K" for i
    using wf sub nth_mem[OF that] by (auto simp: well_formed_def)
  have c: "start (K ! i) < start (K ! j)" if "i < j" "j < length K" for i j
    using a[OF that] b[of i] that by simp
  show ?thesis
  proof (intro exI[of _ "map to_span K"] conjI allI impI)
    show "highlightYara s = Some (map to_span K)" by (rule out)
  next
    fix i j assume "i < j \<and> j < length (map to_span K)"
    then show "end' (map to_span K ! i) \<le> start (map to_span K ! j)"
      using a[of i j] by (simp add: to_span_sel)
  next
    fix i j assume "i < j \<and> j < length (map to_span K)"
    then show "start (map to_span K ! i) < start (map to_span K ! j)"
      using c[of i j] by (simp add: to_span_sel)
  next
    fix i j assume "i < j \<and> j < length (map to_span K)"
    then show "(start (map to_span K ! i), end' (map to_span K ! i))
        \<noteq> (start (map to_span K ! j), end' (map to_span K ! j))"
      using c[of i j] by (simp add: to_span_sel)
  qed
qed

theorem output_sorted_disjoint_witness:
  "\<exists>out. highlightYara scenario_text = Some out \<and> (0 :: nat) < 1 \<and> 1 < length out
     \<and> end' (out ! 0) \<le> start (out ! 1) \<and> start (out ! 0) < start (out ! 1)
     \<and> (start (out ! 0), end' (out ! 0)) \<noteq> (start (out ! 1), end' (out ! 1))"
proof -
  from output_sorted_disjoint[of scenario_text] obtain out where
    out: "highlightYara scenario_text = Some out"
    and a: "\<forall>i j. i < j \<and> j < length out \<longrightarrow> end' (out ! i) \<le> start (out ! j)"
    and b: "\<forall>i j. i < j \<and> j < length out \<longrightarrow> start (out ! i) < start (out ! j)"
    and c: "\<forall>i j. i < j \<and> j < length out \<longrightarrow>
           (start (out ! i), end' (out ! i)) \<noteq> (start (out ! j), end' (out ! j))"
    by blast
  from out have len: "length out = 6" by (rule scenario_output_length)
  then have h: "(0 :: nat) < 1 \<and> 1 < length out" by simp
  from a h have "end' (out ! 0) \<le> start (out ! 1)" by blast
  moreover from b h have "start (out ! 0) < start (out ! 1)" by blast
  moreover from c h have "(start (out ! 0), end' (out ! 0)) \<noteq> (start (out ! 1), end' (out ! 1))"
    by blast
  ultimately show ?thesis using out h by blast
qed

text \<open>
  C2. The output of the scan is the overlap filter run over the pool sorted stably by the
  pair of start and priority, which is what the comparator of the source sorts by.  At every
  candidate of the sorted pool the spans accepted so far begin the output, and the copy of
  the candidate follows them exactly when it overlaps none of them; what comes after is
  taken from the later candidates.  A candidate overlaps a span when it starts before the
  end of the span and ends after its start; a candidate that merely touches a span does not
  overlap it, and two touching candidates on their own are both kept.
\<close>

theorem resolver_sort_then_filter:
  "(\<exists>pool out. collect s = Some pool \<and> highlightYara s = Some out
      \<and> out = filter_loop (sort_key (\<lambda>m. (start m, priority m)) pool) []
      \<and> (\<forall>cs c rest. sort_key (\<lambda>m. (start m, priority m)) pool = cs @ c # rest \<longrightarrow>
           (\<exists>more. out = (if \<exists>a \<in> set (filter_loop cs []). overlaps c a then filter_loop cs []
                           else filter_loop cs [] @ [to_span c]) @ more
                  \<and> set more \<subseteq> to_span ` set rest)))
   \<and> array_sort compare cands = sort_key (\<lambda>m. (start m, priority m)) cands
   \<and> filter (\<lambda>m. (start m, priority m) = k) (array_sort compare cands)
       = filter (\<lambda>m. (start m, priority m) = k) cands
   \<and> (overlaps c a \<longleftrightarrow> start c < end' a \<and> end' c > start a)
   \<and> filter_loop (cs @ [c]) [] =
       (if \<exists>a \<in> set (filter_loop cs []). overlaps c a then filter_loop cs []
        else filter_loop cs [] @ [to_span c])
   \<and> (start c = end' a \<or> end' c = start a \<longrightarrow> \<not> overlaps c a)
   \<and> (start x < end' x \<and> end' x = start y \<and> start y < end' y \<longrightarrow>
        filter_loop (array_sort compare [x, y]) [] = [to_span x, to_span y]
        \<and> filter_loop (array_sort compare [y, x]) [] = [to_span x, to_span y])"
proof -
  have 1: "array_sort compare xs = sort_key (\<lambda>m. (start m, priority m)) xs" for xs
    by (simp add: array_sort_compare rank_fun)
  have 2: "filter (\<lambda>m. (start m, priority m) = k) (array_sort compare cands)
       = filter (\<lambda>m. (start m, priority m) = k) cands"
    unfolding 1 by (rule sort_key_stable)
  have 5: "start c = end' a \<or> end' c = start a \<longrightarrow> \<not> overlaps c a"
    by (auto simp: overlaps_def)
  have 6: "filter_loop (array_sort compare [x, y]) [] = [to_span x, to_span y]
        \<and> filter_loop (array_sort compare [y, x]) [] = [to_span x, to_span y]"
    if "start x < end' x \<and> end' x = start y \<and> start y < end' y"
    using that by (auto simp: array_sort_def compare_def overlaps_def to_span_def)
  from collect_total[of s] obtain pool where pool: "collect s = Some pool" by blast
  let ?sorted = "sort_key (\<lambda>m. (start m, priority m)) pool"
  let ?out = "filter_loop ?sorted []"
  from pool have out: "highlightYara s = Some ?out" by (simp add: highlightYara_def 1)
  have walk: "\<forall>cs c rest. ?sorted = cs @ c # rest \<longrightarrow>
           (\<exists>more. ?out = (if \<exists>a \<in> set (filter_loop cs []). overlaps c a then filter_loop cs []
                           else filter_loop cs [] @ [to_span c]) @ more
                  \<and> set more \<subseteq> to_span ` set rest)"
  proof (intro allI impI)
    fix cs c rest assume "?sorted = cs @ c # rest"
    then have "?out = filter_loop (cs @ c # rest) []" by simp
    with filter_loop_split[of cs c rest]
    show "\<exists>more. ?out = (if \<exists>a \<in> set (filter_loop cs []). overlaps c a then filter_loop cs []
                           else filter_loop cs [] @ [to_span c]) @ more
                  \<and> set more \<subseteq> to_span ` set rest" by simp
  qed
  have scan: "\<exists>pool out. collect s = Some pool \<and> highlightYara s = Some out
      \<and> out = filter_loop (sort_key (\<lambda>m. (start m, priority m)) pool) []
      \<and> (\<forall>cs c rest. sort_key (\<lambda>m. (start m, priority m)) pool = cs @ c # rest \<longrightarrow>
           (\<exists>more. out = (if \<exists>a \<in> set (filter_loop cs []). overlaps c a then filter_loop cs []
                           else filter_loop cs [] @ [to_span c]) @ more
                  \<and> set more \<subseteq> to_span ` set rest))"
    using pool out walk by blast
  from scan 1[of cands] 2 filter_loop_snoc[of cs c "[]"] 5 6 show ?thesis
    by (simp add: overlaps_def)
qed

theorem resolver_sort_then_filter_witness:
  "(\<exists>more. highlightYara scenario_text = Some
       ([\<lparr>start = 0, end' = 8, decoration = commentDecoration\<rparr>,
         \<lparr>start = 9, end' = 13, decoration = keywordDecoration\<rparr>,
         \<lparr>start = 14, end' = 17, decoration = ruleNameDecoration\<rparr>,
         \<lparr>start = 20, end' = 29, decoration = keywordDecoration\<rparr>]
        @ [\<lparr>start = 29, end' = 30, decoration = operatorDecoration\<rparr>] @ more))
   \<and> (\<exists>more. highlightYara scenario_text = Some
       ([\<lparr>start = 0, end' = 8, decoration = commentDecoration\<rparr>] @ more))
   \<and> overlaps \<lparr>start = 0, end' = 2, decoration = operatorDecoration, priority = 7\<rparr>
       \<lparr>start = 0, end' = 8, decoration = commentDecoration\<rparr>
   \<and> overlaps \<lparr>start = 2, end' = 5, decoration = keywordDecoration, priority = 8\<rparr>
       \<lparr>start = 0, end' = 3, decoration = operatorDecoration, priority = 7\<rparr>
   \<and> \<not> overlaps \<lparr>start = 2, end' = 5, decoration = keywordDecoration, priority = 8\<rparr>
       \<lparr>start = 0, end' = 2, decoration = operatorDecoration, priority = 7\<rparr>
   \<and> filter_loop (array_sort compare
         [\<lparr>start = 2, end' = 5, decoration = keywordDecoration, priority = 8\<rparr>,
          \<lparr>start = 0, end' = 2, decoration = operatorDecoration, priority = 7\<rparr>]) []
       = [\<lparr>start = 0, end' = 2, decoration = operatorDecoration\<rparr>,
          \<lparr>start = 2, end' = 5, decoration = keywordDecoration\<rparr>]
   \<and> filter_loop ([\<lparr>start = 0, end' = 3, decoration = operatorDecoration, priority = 7\<rparr>]
         @ [\<lparr>start = 2, end' = 5, decoration = keywordDecoration, priority = 8\<rparr>]) []
       = [\<lparr>start = 0, end' = 3, decoration = operatorDecoration\<rparr>]"
proof -
  let ?y = "\<lparr>start = 2, end' = 5, decoration = keywordDecoration, priority = 8\<rparr>"
  let ?x = "\<lparr>start = 0, end' = 2, decoration = operatorDecoration, priority = 7\<rparr>"
  let ?w = "\<lparr>start = 0, end' = 3, decoration = operatorDecoration, priority = 7\<rparr>"
  let ?c0 = "\<lparr>start = 0, end' = 8, decoration = commentDecoration, priority = 1\<rparr>"
  let ?k3 = "\<lparr>start = 9, end' = 13, decoration = keywordDecoration, priority = 3\<rparr>"
  let ?k8 = "\<lparr>start = 9, end' = 13, decoration = keywordDecoration, priority = 8\<rparr>"
  let ?n = "\<lparr>start = 14, end' = 17, decoration = ruleNameDecoration, priority = 3\<rparr>"
  let ?cond = "\<lparr>start = 20, end' = 29, decoration = keywordDecoration, priority = 8\<rparr>"
  let ?colon = "\<lparr>start = 29, end' = 30, decoration = operatorDecoration, priority = 7\<rparr>"
  let ?atom = "\<lparr>start = 31, end' = 35, decoration = atomDecoration, priority = 6\<rparr>"
  have touch: "start ?y = end' ?x \<or> end' ?y = start ?x" by simp
  have adj: "start ?x < end' ?x \<and> end' ?x = start ?y \<and> start ?y < end' ?y" by simp
  have one: "filter_loop [?w] [] = [to_span ?w]" by (simp add: to_span_def)
  note t = resolver_sort_then_filter[of scenario_text "[?y, ?x]" "(0, 7)" ?y ?x "[?w]" ?x ?y]
  from t touch adj
  have 1: "\<not> overlaps ?y ?x"
    and 2: "filter_loop (array_sort compare [?y, ?x]) [] = [to_span ?x, to_span ?y]"
    by blast+
  from resolver_sort_then_filter[of scenario_text "[?y, ?x]" "(0, 7)" ?y ?w "[?w]" ?x ?y]
  have 3: "overlaps ?y ?w \<longleftrightarrow> start ?y < end' ?w \<and> end' ?y > start ?w"
    and 4: "filter_loop ([?w] @ [?y]) [] =
       (if \<exists>a \<in> set (filter_loop [?w] []). overlaps ?y a then filter_loop [?w] []
        else filter_loop [?w] [] @ [to_span ?y])"
    by blast+
  from 3 have 5: "overlaps ?y ?w" by simp
  then have "overlaps ?y (to_span ?w)" by (simp add: overlaps_to_span)
  with 4 one have 6: "filter_loop ([?w] @ [?y]) [] = [to_span ?w]" by simp
  from t obtain pool out where
    pool: "collect scenario_text = Some pool" and out: "highlightYara scenario_text = Some out"
    and walk: "\<forall>cs c rest. sort_key (\<lambda>m. (start m, priority m)) pool = cs @ c # rest \<longrightarrow>
           (\<exists>more. out = (if \<exists>a \<in> set (filter_loop cs []). overlaps c a then filter_loop cs []
                           else filter_loop cs [] @ [to_span c]) @ more
                  \<and> set more \<subseteq> to_span ` set rest)"
    by blast
  from pool have eq: "pool = scenario_pool" by (simp add: collect_scenario_text)
  have srt: "sort_key (\<lambda>m. (start m, priority m)) pool = [?c0, ?x, ?k3, ?k8, ?n, ?cond, ?colon, ?atom]"
    using sorted_scenario_pool by (simp add: eq array_sort_compare rank_fun)
  then have split1: "sort_key (\<lambda>m. (start m, priority m)) pool
      = [?c0, ?x, ?k3, ?k8, ?n, ?cond] @ ?colon # [?atom]" by simp
  from srt have split2: "sort_key (\<lambda>m. (start m, priority m)) pool
      = [?c0] @ ?x # [?k3, ?k8, ?n, ?cond, ?colon, ?atom]" by simp
  have acc1: "filter_loop [?c0, ?x, ?k3, ?k8, ?n, ?cond] [] = [to_span ?c0, to_span ?k3, to_span ?n, to_span ?cond]"
    by (simp add: overlaps_def to_span_def)
  have acc2: "filter_loop [?c0] [] = [to_span ?c0]" by (simp add: to_span_def)
  have no: "\<not> (\<exists>a \<in> set [to_span ?c0, to_span ?k3, to_span ?n, to_span ?cond]. overlaps ?colon a)"
    by (simp add: overlaps_def to_span_def)
  have yes: "\<exists>a \<in> set [to_span ?c0]. overlaps ?x a" by (simp add: overlaps_def to_span_def)
  from walk split1 obtain more1 where
    "out = (if \<exists>a \<in> set (filter_loop [?c0, ?x, ?k3, ?k8, ?n, ?cond] []). overlaps ?colon a
            then filter_loop [?c0, ?x, ?k3, ?k8, ?n, ?cond] []
            else filter_loop [?c0, ?x, ?k3, ?k8, ?n, ?cond] [] @ [to_span ?colon]) @ more1"
    by blast
  with acc1 no have o1: "out = [to_span ?c0, to_span ?k3, to_span ?n, to_span ?cond] @ [to_span ?colon] @ more1"
    by simp
  from walk split2 obtain more2 where
    "out = (if \<exists>a \<in> set (filter_loop [?c0] []). overlaps ?x a then filter_loop [?c0] []
            else filter_loop [?c0] [] @ [to_span ?x]) @ more2"
    by blast
  with acc2 yes have o2: "out = [to_span ?c0] @ more2" by simp
  have 7: "overlaps ?x (to_span ?c0)" by (simp add: overlaps_def to_span_def)
  from o1 out have A: "\<exists>more. highlightYara scenario_text = Some
       ([to_span ?c0, to_span ?k3, to_span ?n, to_span ?cond] @ [to_span ?colon] @ more)" by blast
  from o2 out have B: "\<exists>more. highlightYara scenario_text = Some ([to_span ?c0] @ more)" by blast
  from A B 1 2 5 6 7 show ?thesis by (simp add: to_span_def)
qed

text \<open>
  C3. Of two pooled candidates with the same start, the one with the higher priority
  number is never retained, whatever the ends are: if one of the two is retained, it is
  the one with the lower priority number.  \<open>kept_loop\<close> names the retained candidates, of
  which the output is the copy without priorities.
\<close>

theorem lower_priority_number_wins:
  assumes "collect s = Some pool" and "a \<in> set pool" and "b \<in> set pool"
    and "start a = start b" and "priority a < priority b"
  shows "highlightYara s = Some (map to_span (kept_loop (array_sort compare pool) []))
     \<and> b \<notin> set (kept_loop (array_sort compare pool) [])"
proof -
  from collect_total[of s] assms(1) have "\<forall>c \<in> set pool. well_formed s c" by auto
  then have ne: "\<forall>c \<in> set (array_sort compare pool). start c < end' c"
    by (simp add: well_formed_def set_array_sort)
  from kept_loop_lower_priority[OF sorted_array_sort ne _ _ assms(4,5)] assms(2,3)
  have "b \<notin> set (kept_loop (array_sort compare pool) [])" by (simp add: set_array_sort)
  with highlightYara_kept[OF assms(1)] show ?thesis by simp
qed

theorem lower_priority_number_wins_witness:
  "collect scenario_text = Some scenario_pool
   \<and> \<lparr>start = 9, end' = 13, decoration = keywordDecoration, priority = 3\<rparr> \<in> set scenario_pool
   \<and> \<lparr>start = 9, end' = 13, decoration = keywordDecoration, priority = 8\<rparr> \<in> set scenario_pool
   \<and> \<lparr>start = 9, end' = 13, decoration = keywordDecoration, priority = 8\<rparr>
        \<notin> set (kept_loop (array_sort compare scenario_pool) [])
   \<and> \<lparr>start = 9, end' = 13, decoration = keywordDecoration, priority = 3\<rparr>
        \<in> set (kept_loop (array_sort compare scenario_pool) [])"
proof -
  let ?a = "\<lparr>start = 9, end' = 13, decoration = keywordDecoration, priority = 3\<rparr>"
  let ?b = "\<lparr>start = 9, end' = 13, decoration = keywordDecoration, priority = 8\<rparr>"
  have a: "?a \<in> set scenario_pool" and b: "?b \<in> set scenario_pool"
    by (simp_all add: scenario_pool_def)
  have s: "start ?a = start ?b" and p: "priority ?a < priority ?b" by simp_all
  from lower_priority_number_wins[OF collect_scenario_text a b s p]
  have "?b \<notin> set (kept_loop (array_sort compare scenario_pool) [])" by blast
  moreover have "?a \<in> set (kept_loop (array_sort compare scenario_pool) [])"
    by (simp add: kept_scenario_pool)
  ultimately show ?thesis using collect_scenario_text a b by blast
qed

text \<open>
  C4. The pool is the concatenation of what each matcher reports when it is run on its
  own, and the output consists of the unchanged start, end and decoration of a subsequence
  of the sorted pool, which is a permutation of the pool: a candidate is kept whole or
  dropped whole, never trimmed.
\<close>

theorem candidates_kept_whole_or_dropped:
  "\<exists>runs ks. matcher_runs s = map Some runs \<and> collect s = Some (concat runs)
     \<and> highlightYara s = Some (map to_span ks)
     \<and> subseq ks (array_sort compare (concat runs))
     \<and> mset (array_sort compare (concat runs)) = mset (concat runs)
     \<and> (\<forall>sp \<in> set (map to_span ks). \<exists>run \<in> set runs. \<exists>c \<in> set run.
           start sp = start c \<and> end' sp = end' c \<and> decoration sp = decoration c)"
proof -
  from collect_matcher_runs[of s] obtain runs where
    runs: "matcher_runs s = map Some runs" "collect s = Some (concat runs)" by blast
  let ?pool = "concat runs"
  let ?ks = "kept_loop (array_sort compare ?pool) []"
  from kept_loop_subseq[of "array_sort compare ?pool" "[]"]
  have sub: "subseq ?ks (array_sort compare ?pool)" by simp
  from subseq_set_subset[OF this] have "set ?ks \<subseteq> set ?pool" by (simp add: set_array_sort)
  then have "\<forall>sp \<in> set (map to_span ?ks). \<exists>run \<in> set runs. \<exists>c \<in> set run.
           start sp = start c \<and> end' sp = end' c \<and> decoration sp = decoration c"
    by (auto simp: to_span_sel)
  moreover have "mset (array_sort compare ?pool) = mset ?pool" by (simp add: array_sort_compare)
  ultimately show ?thesis using highlightYara_kept[OF runs(2)] sub runs by blast
qed

theorem candidates_kept_whole_or_dropped_witness:
  "\<exists>runs ks. matcher_runs scenario_text = map Some runs \<and> concat runs = scenario_pool
     \<and> highlightYara scenario_text = Some (map to_span ks)
     \<and> subseq ks (array_sort compare scenario_pool) \<and> length ks = 6
     \<and> to_span (hd ks) \<in> set (map to_span ks)
     \<and> (\<exists>run \<in> set runs. \<exists>c \<in> set run. start (to_span (hd ks)) = start c
           \<and> end' (to_span (hd ks)) = end' c \<and> decoration (to_span (hd ks)) = decoration c)"
proof -
  from candidates_kept_whole_or_dropped[of scenario_text] obtain runs ks where
    r: "matcher_runs scenario_text = map Some runs" "collect scenario_text = Some (concat runs)"
    and ks: "highlightYara scenario_text = Some (map to_span ks)"
      "subseq ks (array_sort compare (concat runs))"
    and all: "\<forall>sp \<in> set (map to_span ks). \<exists>run \<in> set runs. \<exists>c \<in> set run.
           start sp = start c \<and> end' sp = end' c \<and> decoration sp = decoration c"
    by blast
  from r(2) have pool: "concat runs = scenario_pool" by (simp add: collect_scenario_text)
  from ks(1) have "length (map to_span ks) = 6" by (rule scenario_output_length)
  then have len: "length ks = 6" by simp
  then have "ks \<noteq> []" by auto
  then have h: "to_span (hd ks) \<in> set (map to_span ks)" by simp
  with all have "\<exists>run \<in> set runs. \<exists>c \<in> set run. start (to_span (hd ks)) = start c
           \<and> end' (to_span (hd ks)) = end' c \<and> decoration (to_span (hd ks)) = decoration c"
    by blast
  with r(1) pool ks len h show ?thesis by (intro exI[of _ runs] exI[of _ ks]) simp
qed

text \<open>
  C7. Every candidate and every output span has its start before its end, and no pattern
  of the catalogue has a match of length zero at any position of any text.
\<close>

theorem no_zero_length_match:
  "\<exists>pool out. collect s = Some pool \<and> highlightYara s = Some out
     \<and> (\<forall>c \<in> set pool. start c < end' c)
     \<and> (\<forall>sp \<in> set out. start sp < end' sp)
     \<and> (\<forall>r \<in> set catalogue. \<forall>i. \<forall>e \<in> set (ms r s i). i < e)"
proof -
  from highlightYara_total[of s] obtain pool K where
    pool: "collect s = Some pool" and wf: "\<forall>c \<in> set pool. well_formed s c"
    and out: "highlightYara s = Some (map to_span K)" and sub: "set K \<subseteq> set pool"
    by blast
  from wf have 1: "\<forall>c \<in> set pool. start c < end' c" by (simp add: well_formed_def)
  with sub have 2: "\<forall>sp \<in> set (map to_span K). start sp < end' sp" by (auto simp: to_span_sel)
  have "1 \<le> minlen r" if "r \<in> set catalogue" for r
    using that minlen_catalogue by (auto simp: catalogue_def)
  then have 3: "\<forall>r \<in> set catalogue. \<forall>i. \<forall>e \<in> set (ms r s i). i < e"
    using ms_minlen[of _ _ s] by fastforce
  from pool out 1 2 3 show ?thesis by blast
qed

theorem no_zero_length_match_witness:
  "\<exists>pool out. collect scenario_text = Some pool \<and> highlightYara scenario_text = Some out
     \<and> hd pool \<in> set pool \<and> start (hd pool) < end' (hd pool)
     \<and> hd out \<in> set out \<and> start (hd out) < end' (hd out)
     \<and> operatorRegex \<in> set catalogue \<and> 30 \<in> set (ms operatorRegex scenario_text 29)
     \<and> (29 :: nat) < 30"
proof -
  from no_zero_length_match[of scenario_text] obtain pool out where
    pool: "collect scenario_text = Some pool" and out: "highlightYara scenario_text = Some out"
    and a: "\<forall>c \<in> set pool. start c < end' c" and b: "\<forall>sp \<in> set out. start sp < end' sp"
    and c: "\<forall>r \<in> set catalogue. \<forall>i. \<forall>e \<in> set (ms r scenario_text i). i < e"
    by blast
  from pool have "pool = scenario_pool" by (simp add: collect_scenario_text)
  then have hp: "hd pool \<in> set pool" by (simp add: scenario_pool_def)
  from out have "length out = 6" by (rule scenario_output_length)
  then have "out \<noteq> []" by auto
  then have ho: "hd out \<in> set out" by simp
  have r: "operatorRegex \<in> set catalogue" by (simp add: catalogue_def)
  have e: "30 \<in> set (ms operatorRegex scenario_text 29)"
    by (simp add: scan_defs scenario_text_def)
  from c r e have "(29 :: nat) < 30" by blast
  with pool out a b hp ho r e show ?thesis by blast
qed

text \<open>
  C8. The block comment pattern asks for the closing \<open>*/\<close>: on the text \<open>/* abc\<close>, which
  starts a block comment and never closes it, the comment scan finds nothing and the scan
  returns a single operator span over \<open>/*\<close>, where the claim has a comment up to the end
  of the text.  The string pattern beside it does go on to the end of the text when the
  closing quote is missing.
\<close>

theorem unterminated_block_comment_not_matched:
  "take 2 (drop 0 unterminated_text) = str ''/*''
   \<and> scan multiCommentRegex commentDecoration 1 unterminated_text [] = Some []
   \<and> highlightYara unterminated_text
       = Some [\<lparr>start = 0, end' = 2, decoration = operatorDecoration\<rparr>]
   \<and> scan stringRegex stringDecoration 2 open_string_text []
       = Some [\<lparr>start = 0, end' = length open_string_text, decoration = stringDecoration,
                priority = 2\<rparr>]"
  using scan_multiComment_unterminated highlightYara_unterminated_text scan_string_open_string_text
  by (simp add: unterminated_text_def open_string_text_def str_def cu_def)

theorem unterminated_block_comment_not_matched_witness:
  "commentDecoration \<notin> decoration ` set (the (highlightYara unterminated_text))
   \<and> length (the (scan stringRegex stringDecoration 2 open_string_text [])) = 1"
  using unterminated_block_comment_not_matched by simp

text \<open>
  C9, as amended. On the scenario text the scan gives the comment, the keyword \<open>rule\<close>,
  the rule name, the keyword \<open>condition\<close>, an operator span over the colon, and the
  boolean atom, and no number span.  The claim as stated, with no operator span, fails.
\<close>

theorem scenario_spans:
  "highlightYara scenario_text = Some
     [\<lparr>start = 0, end' = 8, decoration = commentDecoration\<rparr>,
      \<lparr>start = 9, end' = 13, decoration = keywordDecoration\<rparr>,
      \<lparr>start = 14, end' = 17, decoration = ruleNameDecoration\<rparr>,
      \<lparr>start = 20, end' = 29, decoration = keywordDecoration\<rparr>,
      \<lparr>start = 29, end' = 30, decoration = operatorDecoration\<rparr>,
      \<lparr>start = 31, end' = 35, decoration = atomDecoration\<rparr>]
   \<and> numberDecoration \<notin> decoration ` set (the (highlightYara scenario_text))"
  by (simp add: highlightYara_scenario_text)

theorem scenario_spans_witness:
  "map decoration (the (highlightYara scenario_text)) =
     [commentDecoration, keywordDecoration, ruleNameDecoration, keywordDecoration,
      operatorDecoration, atomDecoration]"
  using scenario_spans by simp

theorem scenario_has_operator_span_counterexample:
  "highlightYara scenario_text \<noteq> Some
     [\<lparr>start = 0, end' = 8, decoration = commentDecoration\<rparr>,
      \<lparr>start = 9, end' = 13, decoration = keywordDecoration\<rparr>,
      \<lparr>start = 14, end' = 17, decoration = ruleNameDecoration\<rparr>,
      \<lparr>start = 20, end' = 29, decoration = keywordDecoration\<rparr>,
      \<lparr>start = 31, end' = 35, decoration = atomDecoration\<rparr>]
   \<and> \<lparr>start = 29, end' = 30, decoration = operatorDecoration\<rparr>
        \<in> set (the (highlightYara scenario_text))"
  by (simp add: highlightYara_scenario_text)

text \<open>
  C10. The overlap filter always accepts the first candidate of its input.  When the
  pool is not empty the output is not empty and its first span is the copy of the head of
  the sorted pool, which is a candidate of the pool, least among them by start and then by
  priority, and the first of the pool among those with its start and priority.  The pool is
  not empty as soon as one pattern of the catalogue matches at some position of the text.
\<close>

theorem first_sorted_candidate_accepted:
  "\<exists>pool out. collect s = Some pool \<and> highlightYara s = Some out
     \<and> (pool \<noteq> [] \<longrightarrow> out \<noteq> [] \<and> hd out = to_span (hd (array_sort compare pool))
          \<and> hd (array_sort compare pool) \<in> set pool
          \<and> (\<forall>c \<in> set pool. start (hd (array_sort compare pool)) < start c
                \<or> (start (hd (array_sort compare pool)) = start c
                    \<and> priority (hd (array_sort compare pool)) \<le> priority c))
          \<and> hd (filter (\<lambda>c. start c = start (hd (array_sort compare pool))
                             \<and> priority c = priority (hd (array_sort compare pool))) pool)
              = hd (array_sort compare pool))
     \<and> ((\<exists>r \<in> set catalogue. \<exists>i \<le> length s. ms r s i \<noteq> []) \<longrightarrow> pool \<noteq> [] \<and> out \<noteq> [])
     \<and> (\<forall>c cs. hd (filter_loop (c # cs) []) = to_span c)"
proof -
  have first: "hd (filter_loop (c # cs) []) = to_span c" for c cs
  proof -
    from kept_loop_prefix[of cs "[c]"] obtain ys where "kept_loop cs [c] = [c] @ ys" by blast
    then have "kept_loop (c # cs) [] = c # ys" by simp
    with filter_loop_kept[of "c # cs" "[]"] show ?thesis by simp
  qed
  from collect_matcher_runs[of s] obtain runs where
    pool: "collect s = Some (concat runs)"
    and found: "\<forall>r \<in> set catalogue. \<forall>i. i \<le> length s \<and> ms r s i \<noteq> [] \<longrightarrow> concat runs \<noteq> []"
    by blast
  let ?pool = "concat runs"
  let ?out = "map to_span (kept_loop (array_sort compare ?pool) [])"
  note out = highlightYara_kept[OF pool]
  have ne: "?out \<noteq> [] \<and> hd ?out = to_span (hd (array_sort compare ?pool))" if "?pool \<noteq> []"
  proof -
    from that have "array_sort compare ?pool \<noteq> []"
      using set_array_sort[of ?pool] by (metis set_empty)
    then obtain c cs where cs: "array_sort compare ?pool = c # cs"
      by (cases "array_sort compare ?pool") auto
    from kept_loop_prefix[of cs "[c]"] obtain ys where "kept_loop cs [c] = [c] @ ys" by blast
    then have "kept_loop (array_sort compare ?pool) [] = c # ys" by (simp add: cs)
    with cs show ?thesis by simp
  qed
  have a: "?pool \<noteq> [] \<longrightarrow> ?out \<noteq> [] \<and> hd ?out = to_span (hd (array_sort compare ?pool))
          \<and> hd (array_sort compare ?pool) \<in> set ?pool
          \<and> (\<forall>c \<in> set ?pool. start (hd (array_sort compare ?pool)) < start c
                \<or> (start (hd (array_sort compare ?pool)) = start c
                    \<and> priority (hd (array_sort compare ?pool)) \<le> priority c))
          \<and> hd (filter (\<lambda>c. start c = start (hd (array_sort compare ?pool))
                             \<and> priority c = priority (hd (array_sort compare ?pool))) ?pool)
              = hd (array_sort compare ?pool)"
    using ne sorted_pool_head[of ?pool] by blast
  have b: "(\<exists>r \<in> set catalogue. \<exists>i \<le> length s. ms r s i \<noteq> []) \<longrightarrow> ?pool \<noteq> [] \<and> ?out \<noteq> []"
  proof
    assume "\<exists>r \<in> set catalogue. \<exists>i \<le> length s. ms r s i \<noteq> []"
    with found have "?pool \<noteq> []" by blast
    with ne show "?pool \<noteq> [] \<and> ?out \<noteq> []" by blast
  qed
  from pool out a b first show ?thesis by blast
qed

theorem first_sorted_candidate_accepted_witness:
  "\<exists>out. collect nested_comment_text = Some nested_comment_pool \<and> nested_comment_pool \<noteq> []
     \<and> hd nested_comment_pool = \<lparr>start = 7, end' = 18, decoration = commentDecoration, priority = 1\<rparr>
     \<and> hd (array_sort compare nested_comment_pool)
          = \<lparr>start = 0, end' = 14, decoration = commentDecoration, priority = 1\<rparr>
     \<and> hd nested_comment_pool \<in> set nested_comment_pool
     \<and> start (hd (array_sort compare nested_comment_pool)) < start (hd nested_comment_pool)
     \<and> highlightYara nested_comment_text = Some out \<and> out \<noteq> []
     \<and> hd out = \<lparr>start = 0, end' = 14, decoration = commentDecoration\<rparr>
     \<and> operatorRegex \<in> set catalogue \<and> 16 \<le> length nested_comment_text
     \<and> ms operatorRegex nested_comment_text 16 \<noteq> []"
proof -
  from first_sorted_candidate_accepted[of nested_comment_text] obtain pool out where
    pool: "collect nested_comment_text = Some pool"
    and out: "highlightYara nested_comment_text = Some out"
    and a: "pool \<noteq> [] \<longrightarrow> out \<noteq> [] \<and> hd out = to_span (hd (array_sort compare pool))
          \<and> hd (array_sort compare pool) \<in> set pool
          \<and> (\<forall>c \<in> set pool. start (hd (array_sort compare pool)) < start c
                \<or> (start (hd (array_sort compare pool)) = start c
                    \<and> priority (hd (array_sort compare pool)) \<le> priority c))"
    and b: "(\<exists>r \<in> set catalogue. \<exists>i \<le> length nested_comment_text.
          ms r nested_comment_text i \<noteq> []) \<longrightarrow> pool \<noteq> [] \<and> out \<noteq> []"
    by blast
  from pool have eq: "pool = nested_comment_pool" by (simp add: collect_nested_comment_text)
  have r: "operatorRegex \<in> set catalogue" by (simp add: catalogue_def)
  have i: "16 \<le> length nested_comment_text" by (simp add: nested_comment_text_def str_def)
  have m: "ms operatorRegex nested_comment_text 16 \<noteq> []"
    by (simp add: scan_defs nested_comment_text_def)
  from b r i m have ne: "pool \<noteq> [] \<and> out \<noteq> []" by blast
  with a have h: "hd out = to_span (hd (array_sort compare pool))"
    and least: "\<forall>c \<in> set pool. start (hd (array_sort compare pool)) < start c
                \<or> (start (hd (array_sort compare pool)) = start c
                    \<and> priority (hd (array_sort compare pool)) \<le> priority c)"
    by blast+
  have hp: "hd nested_comment_pool = \<lparr>start = 7, end' = 18, decoration = commentDecoration, priority = 1\<rparr>"
    and hin: "hd nested_comment_pool \<in> set nested_comment_pool"
    by (simp_all add: nested_comment_pool_def)
  have hs: "hd (array_sort compare nested_comment_pool)
          = \<lparr>start = 0, end' = 14, decoration = commentDecoration, priority = 1\<rparr>"
    by (simp add: sorted_nested_comment_pool)
  from least hin eq have "start (hd (array_sort compare nested_comment_pool)) < start (hd nested_comment_pool)
      \<or> (start (hd (array_sort compare nested_comment_pool)) = start (hd nested_comment_pool)
          \<and> priority (hd (array_sort compare nested_comment_pool)) \<le> priority (hd nested_comment_pool))"
    by blast
  then have lt: "start (hd (array_sort compare nested_comment_pool)) < start (hd nested_comment_pool)"
    by (simp add: hs hp)
  from h have ho: "hd out = \<lparr>start = 0, end' = 14, decoration = commentDecoration\<rparr>"
    by (simp add: eq hs to_span_def)
  from ne eq pool out hp hs hin lt ho r i m show ?thesis by blast
qed

end
